theory Spec2Isabelle
  imports Main
begin

section \<open>Values, environment and configuration\<close>

text \<open>
  The module \<open>src/start.js\<close> reads \<open>process.env\<close>, a dictionary from names to strings.
  A missing variable reads as \<open>undefined\<close> (here \<open>None\<close>).
\<close>

type_synonym env = "string \<rightharpoonup> string"

text \<open>The port handed to \<open>startServer\<close> is a number, a string, or absent.\<close>

datatype jsval = Undefined | Str string | Num int

text \<open>JavaScript truthiness of a string-or-undefined: the empty string is falsy.\<close>

definition truthy :: "string option \<Rightarrow> bool" where
  "truthy v = (case v of None \<Rightarrow> False | Some s \<Rightarrow> s \<noteq> [])"

text \<open>A template literal prints \<open>undefined\<close> for a missing variable.\<close>

definition interp :: "string option \<Rightarrow> string" where
  "interp v = (case v of None \<Rightarrow> ''undefined'' | Some s \<Rightarrow> s)"

text \<open>\<open>{ port = process.env.PORT || 5000 } = {}\<close>: the default applies to an absent port only.\<close>

definition resolve_port :: "env \<Rightarrow> jsval \<Rightarrow> jsval" where
  "resolve_port e port =
     (case port of
        Undefined \<Rightarrow> (if truthy (e ''PORT'') then Str (the (e ''PORT'')) else Num 5000)
      | _ \<Rightarrow> port)"

text \<open>\<open>process.env.API_PREFIX || "/api/v1/"\<close>\<close>

definition api_prefix :: "env \<Rightarrow> string" where
  "api_prefix e = (if truthy (e ''API_PREFIX'') then the (e ''API_PREFIX'') else ''/api/v1/'')"

text \<open>The storage URL, with the Docker override.\<close>

definition databaseURL :: "env \<Rightarrow> string" where
  "databaseURL e =
     (let url = (if truthy (e ''DATABASE_URL'') then the (e ''DATABASE_URL'')
                 else ''mongodb://mongo:27017/prj'')
      in if e ''DOCKER_ENV'' = Some ''true'' \<and> truthy (e ''DOCKER_DATABASE_URL'')
         then the (e ''DOCKER_DATABASE_URL'') else url)"

text \<open>\<open>process.env.NODE_ENV !== "production"\<close>\<close>

definition non_production :: "env \<Rightarrow> bool" where
  "non_production e = (e ''NODE_ENV'' \<noteq> Some ''production'')"

section \<open>Requests, responses and pipeline stages\<close>

datatype http_method = GET | HEAD | POST | PUT | PATCH | DELETE | OPTIONS

text \<open>
  A request as the handlers see it: \<open>req.method\<close>, \<open>req.path\<close>, \<open>req.ip\<close> (the key of the
  rate limiter) and \<open>req.headers\<close>, whose keys Node delivers in lower case.
\<close>

record request =
  req_method :: http_method
  req_path :: string
  req_ip :: string
  req_headers :: "string \<rightharpoonup> string"

record response =
  res_status :: nat
  res_body :: string
  res_compressed :: bool

text \<open>
  What a stage does with a request: it answers, it calls \<open>next()\<close>, or it forwards an error
  (\<open>next(err)\<close>, a thrown exception, or with express-async-errors a rejected promise).
\<close>

datatype outcome = Respond response | Next | Fail string

text \<open>
  The stages that \<open>startServer\<close> registers on \<open>app\<close>, in the order of the calls of
  \<open>app.use\<close> and \<open>app.get\<close>. \<open>ApiDocs\<close> stands for the routes that
  \<open>expressSwagger(options)\<close> registers on \<open>app\<close> inside \<open>initialiseSwagger\<close>.
\<close>

datatype stage =
    ApiDocs
  | RateLimiter
  | Helmet
  | Cors
  | Alive
  | ExpressLogger
  | Compression
  | JsonParser
  | UrlencodedParser
  | RouteMount string
  | CatchAll
  | GenericErrorMiddleware

text \<open>
  Where \<open>app.listen(port, ...)\<close> listens: a TCP port (0 for one the system chooses) or the
  path of a socket. The call throws when it refuses the port.
\<close>

datatype listen_target = TcpPort nat | SocketPath string

datatype listen_outcome = Throws string | Listens listen_target

text \<open>
  The collaborators that are required by \<open>start.js\<close> but not defined in it are parameters:
  the handlers of the documentation routes, the body parsers (which pass the request on or
  forward an error), the route table of \<open>getRoutes()\<close> (given the mount prefix), the predicate
  \<open>compression.filter\<close>, the remaining conditions of the compression library (threshold,
  negotiated encoding), and the response of the error middleware. Two readings of strings
  by the libraries are parameters too: how Express matches a mount prefix that holds
  pattern characters, and what \<open>listen\<close> does with a string port that is not a plain
  decimal numeral (JavaScript reads blanks, signs, exponents and hexadecimal digits as
  numbers, and \<open>listen\<close> takes any other string for the path of a socket).
\<close>

record collab =
  api_docs :: "request \<Rightarrow> outcome"
  json_parser :: "request \<Rightarrow> string option"
  urlencoded_parser :: "request \<Rightarrow> string option"
  routes :: "string \<Rightarrow> request \<Rightarrow> outcome"
  library_filter :: "request \<Rightarrow> response \<Rightarrow> bool"
  library_compresses :: "request \<Rightarrow> response \<Rightarrow> bool"
  error_response :: response
  pattern_mount :: "string \<Rightarrow> string \<Rightarrow> bool"
  listen_string :: "string \<Rightarrow> listen_outcome"

subsection \<open>The rate limiter\<close>

text \<open>The options given to express-rate-limit: \<open>{ windowMs: 1000, max: 5 }\<close>.\<close>

definition windowMs :: nat where
  "windowMs = 1000"

definition rl_max :: nat where
  "rl_max = 5"

text \<open>
  The limiter counts the hits of each key in the current window and rejects a request
  whose hit number exceeds \<open>max\<close> with the library's default response.
\<close>

type_synonym hits = "string \<Rightarrow> nat"

definition too_many :: response where
  "too_many = \<lparr> res_status = 429,
                res_body = ''Too many requests, please try again later.'',
                res_compressed = False \<rparr>"

definition rateLimiter :: "hits \<Rightarrow> request \<Rightarrow> outcome \<times> hits" where
  "rateLimiter h req =
     (let current = h (req_ip req) + 1
      in (if current > rl_max then Respond too_many else Next,
          h (req_ip req := current)))"

subsection \<open>The handlers written in \<open>start.js\<close>\<close>

text \<open>\<open>app.get("/alive", (req, res) => { res.status(200).send("OK") })\<close>\<close>

definition alive_handler :: "request \<Rightarrow> outcome" where
  "alive_handler req = Respond \<lparr> res_status = 200, res_body = ''OK'', res_compressed = False \<rparr>"

text \<open>\<open>app.use("*", (req, res) => { res.status(404).send("404 - Not Found") })\<close>\<close>

definition catch_all :: "request \<Rightarrow> outcome" where
  "catch_all req =
     Respond \<lparr> res_status = 404, res_body = ''404 - Not Found'', res_compressed = False \<rparr>"

text \<open>
  The filter given to \<open>compression\<close>. It returns its verdict together with the checks it
  evaluated, in order.
\<close>

datatype check = OptOutHeader | LibraryFilter

definition compression_filter :: "collab \<Rightarrow> request \<Rightarrow> response \<Rightarrow> bool \<times> check list" where
  "compression_filter c req res =
     (if truthy (req_headers req ''x-no-compression'') then (False, [OptOutHeader])
      else (library_filter c req res, [OptOutHeader, LibraryFilter]))"

text \<open>
  Modelled from the spec: \<open>genericErrorMiddleware\<close> of \<open>./errorMiddlewares\<close>, which is not
  among the sources. It converts any error into a uniform error response and never
  forwards further.
\<close>

definition genericErrorMiddleware :: "collab \<Rightarrow> string \<Rightarrow> request \<Rightarrow> outcome" where
  "genericErrorMiddleware c err req = Respond (error_response c)"

text \<open>
  Modelled from the spec: \<open>expressLogger\<close> of \<open>./logger\<close>, which is not among the sources.
  It records metadata and passes the request on unchanged.
\<close>

definition expressLogger :: "request \<Rightarrow> outcome" where
  "expressLogger req = Next"

subsection \<open>Dispatch\<close>

text \<open>
  Express matches paths without regard to the case of letters, and lets a trailing slash
  be there or not.
\<close>

definition lower :: "char \<Rightarrow> char" where
  "lower ch =
     (case map_of (zip ''ABCDEFGHIJKLMNOPQRSTUVWXYZ'' ''abcdefghijklmnopqrstuvwxyz'') ch of
        None \<Rightarrow> ch
      | Some l \<Rightarrow> l)"

definition strip_slash :: "string \<Rightarrow> string" where
  "strip_slash m = (case rev m of [] \<Rightarrow> [] | ch # front \<Rightarrow> if ch = CHR ''/'' then rev front else m)"

text \<open>A route (\<open>app.get(route, ...)\<close>) matches the whole path.\<close>

definition route_matches :: "string \<Rightarrow> string \<Rightarrow> bool" where
  "route_matches route path =
     (map lower path = map lower (strip_slash route)
      \<or> map lower path = map lower (strip_slash route) @ ''/'')"

text \<open>
  A mount (\<open>app.use(mount, ...)\<close>) matches the path that is the mount or continues it with
  a slash.
\<close>

definition under_mount :: "string \<Rightarrow> string \<Rightarrow> bool" where
  "under_mount mount path =
     (let m = map lower (strip_slash mount); p = map lower path
      in take (length m) p = m
         \<and> (case drop (length m) p of [] \<Rightarrow> True | ch # rest \<Rightarrow> ch = CHR ''/''))"

text \<open>
  Express reads a mount as a pattern; a mount without pattern characters stands for
  itself.
\<close>

definition plain :: "string \<Rightarrow> bool" where
  "plain mount = list_all (\<lambda>ch. ch \<notin> set '':*()?+$^[]{}|'' \<and> ch \<noteq> CHR 0x5C) mount"

definition mount_matches :: "collab \<Rightarrow> string \<Rightarrow> string \<Rightarrow> bool" where
  "mount_matches c mount path =
     (if plain mount then under_mount mount path else pattern_mount c mount path)"

text \<open>
  Modelled from the spec: the options that \<open>./swagger\<close> exports, among them the paths of the
  documentation routes, are not among the sources, and the spec names no path for the
  documentation; the generator's own paths are taken, the description under
  \<open>/api-docs.json\<close> and the pages under \<open>/api-docs\<close>.
\<close>

definition docs_routes :: "string list" where
  "docs_routes = [''/api-docs.json'', ''/api-docs'']"

definition docs_path :: "string \<Rightarrow> bool" where
  "docs_path path = list_ex (\<lambda>mount. under_mount mount path) docs_routes"

text \<open>
  Express walks the stack in registration order. A stage with four parameters (the error
  middleware) is entered only while an error is pending, every other stage only while none
  is. \<open>app.get("/alive", ...)\<close> is entered for GET (and HEAD) requests of that route, a
  stage mounted on a path for the requests under it, \<open>app.use("*", ...)\<close> and a stage
  registered without a path for every request.
\<close>

definition is_error_stage :: "stage \<Rightarrow> bool" where
  "is_error_stage s = (s = GenericErrorMiddleware)"

fun path_matches :: "collab \<Rightarrow> stage \<Rightarrow> request \<Rightarrow> bool" where
  "path_matches c Alive req =
     ((req_method req = GET \<or> req_method req = HEAD) \<and> route_matches ''/alive'' (req_path req))"
| "path_matches c ApiDocs req = docs_path (req_path req)"
| "path_matches c (RouteMount prefix) req = mount_matches c prefix (req_path req)"
| "path_matches c other req = True"

definition enters :: "collab \<Rightarrow> stage \<Rightarrow> string option \<Rightarrow> request \<Rightarrow> bool" where
  "enters c s pending req =
     (if is_error_stage s then pending \<noteq> None else pending = None \<and> path_matches c s req)"

text \<open>
  Helmet sets headers and calls \<open>next()\<close>. Cors answers a preflight (OPTIONS) request
  itself and passes every other request on.
\<close>

definition no_content :: response where
  "no_content = \<lparr> res_status = 204, res_body = '''', res_compressed = False \<rparr>"

definition parser_outcome :: "string option \<Rightarrow> outcome" where
  "parser_outcome r = (case r of None \<Rightarrow> Next | Some e \<Rightarrow> Fail e)"

fun run_stage :: "collab \<Rightarrow> stage \<Rightarrow> string option \<Rightarrow> hits \<Rightarrow> request \<Rightarrow> outcome \<times> hits" where
  "run_stage c ApiDocs pending h req = (api_docs c req, h)"
| "run_stage c RateLimiter pending h req = rateLimiter h req"
| "run_stage c Helmet pending h req = (Next, h)"
| "run_stage c Cors pending h req =
     (if req_method req = OPTIONS then Respond no_content else Next, h)"
| "run_stage c Alive pending h req = (alive_handler req, h)"
| "run_stage c ExpressLogger pending h req = (expressLogger req, h)"
| "run_stage c Compression pending h req = (Next, h)"
| "run_stage c JsonParser pending h req = (parser_outcome (json_parser c req), h)"
| "run_stage c UrlencodedParser pending h req = (parser_outcome (urlencoded_parser c req), h)"
| "run_stage c (RouteMount prefix) pending h req = (routes c prefix req, h)"
| "run_stage c CatchAll pending h req = (catch_all req, h)"
| "run_stage c GenericErrorMiddleware pending h req =
     (case pending of None \<Rightarrow> Next | Some err \<Rightarrow> genericErrorMiddleware c err req, h)"

text \<open>
  With the stack exhausted Express answers itself: 404 without a pending error, 500 with
  one.
\<close>

definition finalhandler :: "string option \<Rightarrow> response" where
  "finalhandler pending =
     (case pending of
        None \<Rightarrow> \<lparr> res_status = 404, res_body = ''Not Found'', res_compressed = False \<rparr>
      | Some err \<Rightarrow> \<lparr> res_status = 500, res_body = ''Internal Server Error'',
                     res_compressed = False \<rparr>)"

text \<open>
  A response written after the compression stage was passed is compressed when the filter
  agrees and the library's remaining conditions hold.
\<close>

definition finish :: "collab \<Rightarrow> bool \<Rightarrow> request \<Rightarrow> response \<Rightarrow> response" where
  "finish c wrapped req res =
     res \<lparr> res_compressed :=
             wrapped \<and> fst (compression_filter c req res) \<and> library_compresses c req res \<rparr>"

text \<open>
  \<open>dispatch\<close> returns the response, the stages whose handler ran (in order), and the
  limiter's hit counts afterwards.
\<close>

fun dispatch ::
  "collab \<Rightarrow> stage list \<Rightarrow> string option \<Rightarrow> bool \<Rightarrow> hits \<Rightarrow> request
     \<Rightarrow> response \<times> stage list \<times> hits" where
  "dispatch c [] pending wrapped h req = (finish c wrapped req (finalhandler pending), [], h)"
| "dispatch c (s # ss) pending wrapped h req =
     (if \<not> enters c s pending req then dispatch c ss pending wrapped h req
      else case run_stage c s pending h req of
             (Respond res, h') \<Rightarrow> (finish c wrapped req res, [s], h')
           | (Next, h') \<Rightarrow>
               (case dispatch c ss None (wrapped \<or> s = Compression) h' req of
                  (res, vs, h'') \<Rightarrow> (res, s # vs, h''))
           | (Fail err, h') \<Rightarrow>
               (case dispatch c ss (Some err) (wrapped \<or> s = Compression) h' req of
                  (res, vs, h'') \<Rightarrow> (res, s # vs, h'')))"

section \<open>The process\<close>

subsection \<open>Printing numbers\<close>

definition digit_of :: "nat \<Rightarrow> char" where
  "digit_of d = ''0123456789'' ! d"

fun decimal :: "nat \<Rightarrow> string" where
  "decimal n = (if n < 10 then [digit_of n] else decimal (n div 10) @ [digit_of (n mod 10)])"

declare decimal.simps [simp del]

definition string_of_int :: "int \<Rightarrow> string" where
  "string_of_int i = (if i < 0 then ''-'' @ decimal (nat (- i)) else decimal (nat i))"

definition js_to_string :: "jsval \<Rightarrow> string" where
  "js_to_string v = (case v of Undefined \<Rightarrow> ''undefined'' | Str s \<Rightarrow> s | Num n \<Rightarrow> string_of_int n)"

subsection \<open>Effects, promises and servers\<close>

datatype level = Info | Warn | Error

text \<open>What the module does to the outside world, in order.\<close>

datatype effect =
    Log level string
  | ConsoleLog string
  | MongooseConnect string
  | Fetch string http_method
  | AppListen jsval

datatype 'a promise = Pending | Resolved 'a | Rejected string

text \<open>
  The states of a server handle. \<open>Starting\<close>: \<open>app.listen\<close> was called and returned.
  \<open>BindFailed\<close>: the server emitted \<open>error\<close> instead of \<open>listening\<close>. \<open>Refused\<close>:
  \<open>app.listen\<close> threw, so there never was a handle.
\<close>

datatype hstate = Starting | Listening | Closing | Closed | BindFailed | Refused

text \<open>What \<open>server.address()\<close> returns once the server listens.\<close>

datatype address = TcpAddress nat | PipeAddress string

definition address_fits :: "listen_target option \<Rightarrow> address \<Rightarrow> bool" where
  "address_fits target addr =
     (case (target, addr) of
        (Some (TcpPort n), TcpAddress m) \<Rightarrow> n = 0 \<or> m = n
      | (Some (SocketPath path), PipeAddress bound) \<Rightarrow> bound = path
      | other \<Rightarrow> False)"

text \<open>
  One server per call of \<open>app.listen\<close>: the promise \<open>startServer\<close> returned for it (it
  resolves with the server, named by its index), the promises returned by the wrapped
  \<open>close\<close>, the callbacks waiting for the \<open>close\<close> event with the argument each will get,
  and the number of calls of the original \<open>close\<close>.
\<close>

record server =
  srv_port :: jsval
  srv_target :: "listen_target option"
  srv_state :: hstate
  srv_conns :: nat
  close_wrapped :: bool
  started :: "nat promise"
  close_results :: "string option promise list"
  close_listeners :: "(nat \<times> string option) list"
  original_closes :: nat

definition new_server :: "jsval \<Rightarrow> listen_target \<Rightarrow> server" where
  "new_server port target =
     \<lparr> srv_port = port, srv_target = Some target, srv_state = Starting, srv_conns = 0,
       close_wrapped = False, started = Pending, close_results = [], close_listeners = [],
       original_closes = 0 \<rparr>"

text \<open>
  When \<open>app.listen\<close> throws inside the executor of the promise, the promise is rejected
  with what was thrown.
\<close>

definition refused_server :: "jsval \<Rightarrow> string \<Rightarrow> server" where
  "refused_server port err =
     \<lparr> srv_port = port, srv_target = None, srv_state = Refused, srv_conns = 0,
       close_wrapped = False, started = Rejected err, close_results = [], close_listeners = [],
       original_closes = 0 \<rparr>"

text \<open>
  What \<open>app.listen\<close> does with the port. A number is a TCP port when it lies in
  0..65535 and is refused otherwise. A string that is a decimal numeral is read as that
  number; any other string is left to \<open>listen_string\<close>. Without a port the system chooses
  one.
\<close>

definition is_digit :: "char \<Rightarrow> bool" where
  "is_digit ch = (ch \<in> set ''0123456789'')"

definition digit_val :: "char \<Rightarrow> nat" where
  "digit_val ch = length (takeWhile (\<lambda>d. d \<noteq> ch) ''0123456789'')"

definition decimal_value :: "string \<Rightarrow> nat option" where
  "decimal_value s =
     (if s \<noteq> [] \<and> list_all is_digit s
      then Some (foldl (\<lambda>n ch. 10 * n + digit_val ch) 0 s)
      else None)"

definition bad_port :: string where
  "bad_port = ''ERR_SOCKET_BAD_PORT''"

definition check_port :: "nat \<Rightarrow> listen_outcome" where
  "check_port n = (if n \<le> 65535 then Listens (TcpPort n) else Throws bad_port)"

definition app_listen :: "collab \<Rightarrow> jsval \<Rightarrow> listen_outcome" where
  "app_listen c port =
     (case port of
        Undefined \<Rightarrow> Listens (TcpPort 0)
      | Num n \<Rightarrow> if n < 0 then Throws bad_port else check_port (nat n)
      | Str s \<Rightarrow> (case decimal_value s of
                    Some n \<Rightarrow> check_port n
                  | None \<Rightarrow> listen_string c s))"

text \<open>\<open>resolveClose(arg)\<close>: a promise is settled once.\<close>

definition resolve_close :: "nat \<times> string option \<Rightarrow> server \<Rightarrow> server" where
  "resolve_close w s =
     (case w of (k, arg) \<Rightarrow>
        if k < length (close_results s) \<and> close_results s ! k = Pending
        then s \<lparr> close_results := (close_results s) [k := Resolved arg] \<rparr>
        else s)"

text \<open>
  Node's \<open>net.Server\<close>: the \<open>close\<close> event is emitted once the listening handle is
  released and no connection is left; it calls the waiting callbacks, each once.
\<close>

definition emit_close_if_drained :: "server \<Rightarrow> server" where
  "emit_close_if_drained s =
     (if (srv_state s = Closing \<or> srv_state s = Closed) \<and> srv_conns s = 0
      then (fold resolve_close (close_listeners s) s)
             \<lparr> close_listeners := [], srv_state := Closed \<rparr>
      else s)"

text \<open>
  Node's \<open>server.close(cb)\<close>: a listening server stops accepting and \<open>cb\<close> is called
  without argument on \<open>close\<close>; on a server that is not listening \<open>cb\<close> is called with
  an error.
\<close>

definition original_close :: "nat option \<Rightarrow> server \<Rightarrow> server" where
  "original_close cb s =
     (let arg = (if srv_state s = Listening then None else Some ''ERR_SERVER_NOT_RUNNING'');
          s1 = (case cb of
                  None \<Rightarrow> s
                | Some k \<Rightarrow> s \<lparr> close_listeners := close_listeners s @ [(k, arg)] \<rparr>);
          s2 = (if srv_state s = Listening then s1 \<lparr> srv_state := Closing \<rparr> else s1)
      in emit_close_if_drained (s2 \<lparr> original_closes := original_closes s + 1 \<rparr>))"

text \<open>
  The replacement installed by the listen callback:
  \<open>server.close = () => new Promise((resolveClose) => { originalClose(resolveClose) })\<close>
\<close>

definition server_close :: "server \<Rightarrow> server" where
  "server_close s =
     (let k = length (close_results s)
      in original_close (Some k) (s \<lparr> close_results := close_results s @ [Pending] \<rparr>))"

definition call_close :: "server \<Rightarrow> server" where
  "call_close s = (if close_wrapped s then server_close s else original_close None s)"

text \<open>
  The callback of \<open>app.listen\<close>: log \<open>server.address().port\<close> (the address of a socket path
  is a string, whose \<open>port\<close> is undefined), wrap \<open>close\<close>, resolve the promise with the
  server.
\<close>

definition on_listening :: "nat \<Rightarrow> address \<Rightarrow> server \<Rightarrow> server \<times> effect list" where
  "on_listening i addr s =
     (s \<lparr> srv_state := Listening, close_wrapped := True,
          started := (if started s = Pending then Resolved i else started s) \<rparr>,
      [Log Info (''Listening on port ''
                 @ (case addr of TcpAddress n \<Rightarrow> decimal n | PipeAddress path \<Rightarrow> ''undefined''))])"

subsection \<open>Process state\<close>

datatype dbstate = NotConnected | Connecting | Open | Failed

datatype proc_handler = UncaughtHandler | ExitHandler

record proc =
  penv :: env
  app :: "stage list"
  etag :: bool
  limiter :: hits
  db :: dbstate
  db_open_listeners :: nat
  servers :: "server list"
  process_listeners :: "(string \<times> proc_handler) list"
  running :: bool
  exit_status :: "int option"
  out :: "effect list"
  responses :: "(response \<times> stage list) list"

definition emit :: "effect list \<Rightarrow> proc \<Rightarrow> proc" where
  "emit es p = p \<lparr> out := out p @ es \<rparr>"

definition app_use :: "stage \<Rightarrow> proc \<Rightarrow> proc" where
  "app_use s p = p \<lparr> app := app p @ [s] \<rparr>"

definition update_server :: "nat \<Rightarrow> (server \<Rightarrow> server) \<Rightarrow> proc \<Rightarrow> proc" where
  "update_server i f p =
     (if i < length (servers p) then p \<lparr> servers := (servers p) [i := f (servers p ! i)] \<rparr>
      else p)"

subsection \<open>The process-wide handlers\<close>

text \<open>
  What was thrown: \<open>null\<close>, \<open>undefined\<close>, or another value, given by what a template literal
  prints for it (nothing for a value that cannot be converted to a string, as a Symbol) and
  by its \<open>stack\<close> property, if it has one.
\<close>

datatype thrown = ThrownNull | ThrownUndefined | ThrownValue "string option" "string option"

text \<open>
  \<open>process.on("uncaughtException", (err, origin) => { ... })\<close>. The message is built
  before anything is logged: converting \<open>err\<close> throws for an unprintable value, and reading
  \<open>err.stack\<close> throws for \<open>null\<close> and \<open>undefined\<close>; the handler then logs nothing (\<open>None\<close>).
\<close>

definition uncaught_handler :: "thrown \<Rightarrow> string \<Rightarrow> effect list option" where
  "uncaught_handler err origin =
     (case err of
        ThrownValue (Some printed) stack \<Rightarrow>
          Some [Log Error (''Uncaught Exception: origin:'' @ origin @ '', error: '' @ printed
                           @ '', trace: '' @ interp stack),
                Log Warn
                  ''Server may be unstable after an uncaught exception. Please restart server'']
      | other \<Rightarrow> None)"

text \<open>\<open>process.on("exit", (code) => { ... })\<close>\<close>

definition exit_handler :: "int \<Rightarrow> effect list" where
  "exit_handler code =
     [Log Info (''Exiting with code '' @ string_of_int code @ ''...''),
      ConsoleLog ''\<newline>Press Ctrl+C if using nodemon.'']"

definition listeners_of :: "string \<Rightarrow> proc \<Rightarrow> proc_handler list" where
  "listeners_of name p = map snd (filter (\<lambda>l. fst l = name) (process_listeners p))"

definition exit_process :: "int \<Rightarrow> proc \<Rightarrow> proc" where
  "exit_process code p =
     (emit (concat (map (\<lambda>l. exit_handler code) (listeners_of ''exit'' p))) p)
       \<lparr> running := False, exit_status := Some code \<rparr>"

text \<open>
  Node delivers an uncaught exception to the registered listeners. Without any listener
  it ends the process (exit code 1). When a listener throws, Node ends the process at once
  with exit code 7, without the \<open>exit\<close> event.
\<close>

definition emit_uncaught :: "thrown \<Rightarrow> string \<Rightarrow> proc \<Rightarrow> proc" where
  "emit_uncaught err origin p =
     (if listeners_of ''uncaughtException'' p = [] then exit_process 1 p
      else case uncaught_handler err origin of
             None \<Rightarrow> p \<lparr> running := False, exit_status := Some 7 \<rparr>
           | Some logged \<Rightarrow>
               emit (concat (map (\<lambda>l. logged) (listeners_of ''uncaughtException'' p))) p)"

subsection \<open>Module load and \<open>startServer\<close>\<close>

text \<open>
  Loading the module logs the banner, creates \<open>app\<close> and the rate limiter, and registers
  the two process-wide handlers.
\<close>

definition module_load :: "env \<Rightarrow> proc" where
  "module_load e =
     \<lparr> penv = e, app = [], etag = True, limiter = (\<lambda>k. 0), db = NotConnected,
       db_open_listeners = 0, servers = [],
       process_listeners = [(''uncaughtException'', UncaughtHandler), (''exit'', ExitHandler)],
       running = True, exit_status = None, out = [Log Info ''===== STARTING SERVER =====''],
       responses = [] \<rparr>"

text \<open>
  \<open>initialiseSwagger\<close> calls \<open>expressSwagger(options)\<close>, the generator that was given \<open>app\<close>
  at module load (outside production only, as is this call): it registers the
  documentation routes on \<open>app\<close>. The environment does not change after module load.
\<close>

definition initialiseSwagger :: "proc \<Rightarrow> proc" where
  "initialiseSwagger p = app_use ApiDocs p"

text \<open>
  \<open>startServer\<close>, statement by statement: the registrations on \<open>app\<close>, the storage
  connection and its \<open>open\<close> listener, the error middleware, and the promise around
  \<open>app.listen\<close>: a new server whose promise is pending, or, when \<open>app.listen\<close> throws, a
  rejected promise.
\<close>

definition startServer :: "collab \<Rightarrow> jsval \<Rightarrow> proc \<Rightarrow> proc" where
  "startServer c port_arg p0 =
     (let port = resolve_port (penv p0) port_arg;
          p = (if non_production (penv p0) then initialiseSwagger p0 else p0);
          p = app_use RateLimiter p;
          p = app_use Helmet p;
          p = app_use Cors p;
          p = app_use Alive p;
          p = app_use ExpressLogger p;
          p = app_use Compression p;
          p = app_use JsonParser p;
          p = app_use UrlencodedParser p;
          p = p \<lparr> etag := False \<rparr>;
          p = app_use (RouteMount (api_prefix (penv p))) p;
          p = app_use CatchAll p;
          p = emit [MongooseConnect (databaseURL (penv p))] (p \<lparr> db := Connecting \<rparr>);
          p = p \<lparr> db_open_listeners := db_open_listeners p + 1 \<rparr>;
          p = app_use GenericErrorMiddleware p
      in emit [AppListen port]
           (p \<lparr> servers := servers p @
                  [case app_listen c port of
                     Throws err \<Rightarrow> refused_server port err
                   | Listens target \<Rightarrow> new_server port target] \<rparr>))"

subsection \<open>Reactions to events\<close>

text \<open>The \<open>db.on("open", ...)\<close> listener and the callback given to both fetches.\<close>

definition warmup_url :: "env \<Rightarrow> string \<Rightarrow> string" where
  "warmup_url e endpoint =
     ''http://localhost:'' @ interp (e ''PORT'') @ interp (e ''API_PREFIX'')
       @ ''wifis/patch/'' @ endpoint"

definition on_db_open :: "env \<Rightarrow> effect list" where
  "on_db_open e =
     Log Info ''Connected database'' #
     (if e ''CACHE_ON_STARTUP'' = Some ''true''
      then [Log Info ''Loading feature and heat-map cache.'',
            Fetch (warmup_url e ''reloadFeatureCache'') PATCH,
            Fetch (warmup_url e ''reloadHeatmapData'') PATCH]
      else [])"

definition on_fetch_done :: "string option \<Rightarrow> effect list" where
  "on_fetch_done err = (case err of None \<Rightarrow> [] | Some e \<Rightarrow> [ConsoleLog e])"

text \<open>Serving one request: the stack of \<open>app\<close> with the limiter's current counts.\<close>

definition serve :: "collab \<Rightarrow> request \<Rightarrow> proc \<Rightarrow> proc" where
  "serve c req p =
     (case dispatch c (app p) None False (limiter p) req of
        (res, vs, h) \<Rightarrow> p \<lparr> limiter := h, responses := responses p @ [(res, vs)] \<rparr>)"

text \<open>
  The events the environment delivers; \<open>Start\<close> is a call of \<open>startServer\<close>. A server is
  addressed by its index; \<open>ListenOk\<close> carries the address it was bound to (one that fits
  what \<open>app.listen\<close> was asked for), \<open>ListenError\<close> the error and its stack trace,
  \<open>Uncaught\<close> what was thrown and the origin. The caller holds a server, and can call its \<open>close\<close>, only once the promise of \<open>startServer\<close> has resolved
  with it. \<open>WindowElapsed\<close> is the end of a window of the rate limiter (\<open>windowMs\<close>
  milliseconds), which resets its counts. A request is served in one step. A failed
  storage connection has no listener in \<open>start.js\<close>: the rejected promise of
  \<open>mongoose.connect\<close> is left to the runtime, which reports it (if at all) as an
  \<open>Uncaught\<close> event of origin \<open>unhandledRejection\<close>.
\<close>

datatype event =
    Start jsval
  | DbOpen
  | DbConnectFailed string
  | FetchDone "string option"
  | ListenOk nat address
  | ListenError nat string string
  | CloseCall nat
  | ConnOpened nat
  | ConnEnded nat
  | Request nat request
  | WindowElapsed
  | Uncaught thrown string
  | Exit int

definition srv :: "proc \<Rightarrow> nat \<Rightarrow> server option" where
  "srv p i = (if i < length (servers p) then Some (servers p ! i) else None)"

definition accepting :: "server \<Rightarrow> bool" where
  "accepting s = (srv_state s = Listening \<or> (srv_state s = Closing \<and> srv_conns s > 0))"

fun react :: "collab \<Rightarrow> event \<Rightarrow> proc \<Rightarrow> proc" where
  "react c (Start port_arg) p = startServer c port_arg p"
| "react c DbOpen p =
     (if db p = Connecting
      then emit (concat (replicate (db_open_listeners p) (on_db_open (penv p))))
                (p \<lparr> db := Open \<rparr>)
      else p)"
| "react c (DbConnectFailed err) p = (if db p = Connecting then p \<lparr> db := Failed \<rparr> else p)"
| "react c (FetchDone err) p = emit (on_fetch_done err) p"
| "react c (ListenOk i addr) p =
     (case srv p i of
        None \<Rightarrow> p
      | Some s \<Rightarrow>
          if srv_state s = Starting \<and> address_fits (srv_target s) addr
          then emit (snd (on_listening i addr s))
                    (update_server i (\<lambda>s. fst (on_listening i addr s)) p)
          else p)"
| "react c (ListenError i err stack) p =
     (case srv p i of
        None \<Rightarrow> p
      | Some s \<Rightarrow>
          if srv_state s = Starting
          then emit_uncaught (ThrownValue (Some err) (Some stack)) ''uncaughtException''
                 (update_server i (\<lambda>s. s \<lparr> srv_state := BindFailed \<rparr>) p)
          else p)"
| "react c (CloseCall i) p =
     (case srv p i of
        None \<Rightarrow> p
      | Some s \<Rightarrow> if started s = Resolved i then update_server i call_close p else p)"
| "react c (ConnOpened i) p =
     (case srv p i of
        None \<Rightarrow> p
      | Some s \<Rightarrow>
          if srv_state s = Listening
          then update_server i (\<lambda>s. s \<lparr> srv_conns := srv_conns s + 1 \<rparr>) p
          else p)"
| "react c (ConnEnded i) p =
     (case srv p i of
        None \<Rightarrow> p
      | Some s \<Rightarrow>
          if srv_conns s > 0
          then update_server i
                 (\<lambda>s. emit_close_if_drained (s \<lparr> srv_conns := srv_conns s - 1 \<rparr>)) p
          else p)"
| "react c (Request i req) p =
     (case srv p i of
        None \<Rightarrow> p
      | Some s \<Rightarrow> if accepting s then serve c req p else p)"
| "react c WindowElapsed p = p \<lparr> limiter := (\<lambda>k. 0) \<rparr>"
| "react c (Uncaught err origin) p = emit_uncaught err origin p"
| "react c (Exit code) p = exit_process code p"

text \<open>A process that has exited reacts to nothing.\<close>

definition step :: "collab \<Rightarrow> proc \<Rightarrow> event \<Rightarrow> proc" where
  "step c p ev = (if running p then react c ev p else p)"

definition run :: "collab \<Rightarrow> proc \<Rightarrow> event list \<Rightarrow> proc" where
  "run c p evs = foldl (step c) p evs"

section \<open>Notions used by the properties\<close>

text \<open>The outbound requests among the effects.\<close>

fun is_fetch :: "effect \<Rightarrow> bool" where
  "is_fetch (Fetch url m) = True"
| "is_fetch other = False"


text \<open>Serving a list of requests one after the other, within one limiter window.\<close>

definition serve_all :: "collab \<Rightarrow> request list \<Rightarrow> proc \<Rightarrow> proc" where
  "serve_all c reqs p = foldl (\<lambda>q req. serve c req q) p reqs"

text \<open>
  Outside production the documentation routes are registered before the rate limiter; a
  request for them reaches the limiter when their handlers pass it on, every other
  request always.
\<close>

definition docs_run :: "env \<Rightarrow> request \<Rightarrow> bool" where
  "docs_run e req = (non_production e \<and> docs_path (req_path req))"

definition reaches_limiter :: "collab \<Rightarrow> env \<Rightarrow> request \<Rightarrow> bool" where
  "reaches_limiter c e req = (if docs_run e req then api_docs c req = Next else True)"

text \<open>
  The address of a warm-up request as the specification words it: the resolved listen
  port and the resolved prefix. (The code's address is \<open>warmup_url\<close>.)
\<close>

definition warmup_url_spec :: "env \<Rightarrow> jsval \<Rightarrow> string \<Rightarrow> string" where
  "warmup_url_spec e port_arg endpoint =
     ''http://localhost:'' @ js_to_string (resolve_port e port_arg) @ api_prefix e
       @ ''wifis/patch/'' @ endpoint"

text \<open>The stages \<open>startServer\<close> registers after the rate limiter, and before the error middleware.\<close>

definition tail_stages :: "env \<Rightarrow> stage list" where
  "tail_stages e = [Helmet, Cors, Alive, ExpressLogger, Compression, JsonParser,
          UrlencodedParser, RouteMount (api_prefix e), CatchAll, GenericErrorMiddleware]"

definition head_stages :: "env \<Rightarrow> stage list" where
  "head_stages e =
     (if non_production e then [ApiDocs] else [])
       @ [RateLimiter, Helmet, Cors, Alive, ExpressLogger, Compression, JsonParser,
          UrlencodedParser, RouteMount (api_prefix e), CatchAll]"

section \<open>Invariants of a server\<close>

text \<open>
  The argument the underlying \<open>close\<close> passes to the callback of the \<open>k\<close>-th call of the
  wrapper: nothing for the call that found the server listening (the first), the
  not-running error for every later one.
\<close>

definition expected_arg :: "nat \<Rightarrow> string option" where
  "expected_arg k = (if k = 0 then None else Some ''ERR_SERVER_NOT_RUNNING'')"

definition pristine :: "server \<Rightarrow> bool" where
  "pristine s = (started s = Pending \<and> srv_conns s = 0 \<and> \<not> close_wrapped s \<and> close_results s = []
                 \<and> close_listeners s = [] \<and> original_closes s = 0)"

definition turned_down :: "server \<Rightarrow> bool" where
  "turned_down s =
     ((case started s of Rejected err \<Rightarrow> True | other \<Rightarrow> False) \<and> srv_conns s = 0
      \<and> \<not> close_wrapped s \<and> close_results s = [] \<and> close_listeners s = []
      \<and> original_closes s = 0)"

definition handed_out :: "nat \<Rightarrow> server \<Rightarrow> bool" where
  "handed_out i s = (started s = Resolved i \<and> close_wrapped s
                     \<and> original_closes s = length (close_results s))"

definition srv_inv :: "nat \<Rightarrow> server \<Rightarrow> bool" where
  "srv_inv i s =
     (case srv_state s of
        Starting \<Rightarrow> pristine s
      | BindFailed \<Rightarrow> pristine s
      | Refused \<Rightarrow> turned_down s
      | Listening \<Rightarrow> handed_out i s \<and> close_results s = [] \<and> close_listeners s = []
      | Closing \<Rightarrow>
          handed_out i s \<and> srv_conns s > 0 \<and> close_results s \<noteq> []
          \<and> (\<forall>k < length (close_results s). close_results s ! k = Pending)
          \<and> close_listeners s = map (\<lambda>k. (k, expected_arg k)) [0..<length (close_results s)]
      | Closed \<Rightarrow>
          handed_out i s \<and> srv_conns s = 0 \<and> close_results s \<noteq> [] \<and> close_listeners s = []
          \<and> (\<forall>k < length (close_results s). close_results s ! k = Resolved (expected_arg k)))"

definition proc_inv :: "proc \<Rightarrow> bool" where
  "proc_inv p = (\<forall>i < length (servers p). srv_inv i (servers p ! i))"

section \<open>Sample inputs\<close>

definition bare_env :: env where
  "bare_env = map_of []"

definition production_env :: env where
  "production_env = map_of [(''NODE_ENV'', ''production'')]"

definition warmup_env :: env where
  "warmup_env = map_of [(''CACHE_ON_STARTUP'', ''true'')]"


definition oversized_port_env :: env where
  "oversized_port_env = map_of [(''PORT'', ''70000'')]"

definition sample_collab :: collab where
  "sample_collab =
     \<lparr> api_docs = (\<lambda>req. if req_path req = ''/api-docs.json''
                          then Respond \<lparr> res_status = 200, res_body = ''{}'',
                                         res_compressed = False \<rparr>
                          else Next),
       json_parser = (\<lambda>req. None),
       urlencoded_parser = (\<lambda>req. None),
       routes = (\<lambda>prefix req.
                   if req_path req = prefix @ ''wifis''
                   then Respond \<lparr> res_status = 200, res_body = ''[]'', res_compressed = False \<rparr>
                   else if req_path req = prefix @ ''fail'' then Fail ''boom''
                   else Next),
       library_filter = (\<lambda>req res. True),
       library_compresses = (\<lambda>req res. True),
       error_response = \<lparr> res_status = 500, res_body = ''Internal error'',
                          res_compressed = False \<rparr>,
       pattern_mount = (\<lambda>mount path. False),
       listen_string = (\<lambda>s. if s = [] then Throws bad_port else Listens (SocketPath s)) \<rparr>"

definition alive_request :: request where
  "alive_request =
     \<lparr> req_method = GET, req_path = ''/alive'', req_ip = ''203.0.113.7'',
       req_headers = map_of [] \<rparr>"

definition docs_request :: request where
  "docs_request =
     \<lparr> req_method = GET, req_path = ''/api-docs.json'', req_ip = ''203.0.113.7'',
       req_headers = map_of [] \<rparr>"

definition wifis_request :: "string \<Rightarrow> request" where
  "wifis_request opt_out =
     \<lparr> req_method = GET, req_path = ''/api/v1/wifis'', req_ip = ''203.0.113.7'',
       req_headers = map_of [(''x-no-compression'', opt_out)] \<rparr>"

definition failing_request :: request where
  "failing_request =
     \<lparr> req_method = GET, req_path = ''/api/v1/fail'', req_ip = ''203.0.113.7'',
       req_headers = map_of [] \<rparr>"

section \<open>Lemmas: the close callbacks\<close>

lemma resolve_close_fields [simp]:
  "srv_state (resolve_close w s) = srv_state s"
  "srv_conns (resolve_close w s) = srv_conns s"
  "started (resolve_close w s) = started s"
  "close_wrapped (resolve_close w s) = close_wrapped s"
  "close_listeners (resolve_close w s) = close_listeners s"
  "original_closes (resolve_close w s) = original_closes s"
  "srv_port (resolve_close w s) = srv_port s"
  "length (close_results (resolve_close w s)) = length (close_results s)"
  by (auto simp: resolve_close_def split: prod.splits)

lemma fold_resolve_fields [simp]:
  "srv_state (fold resolve_close ws s) = srv_state s"
  "srv_conns (fold resolve_close ws s) = srv_conns s"
  "started (fold resolve_close ws s) = started s"
  "close_wrapped (fold resolve_close ws s) = close_wrapped s"
  "close_listeners (fold resolve_close ws s) = close_listeners s"
  "original_closes (fold resolve_close ws s) = original_closes s"
  "srv_port (fold resolve_close ws s) = srv_port s"
  "length (close_results (fold resolve_close ws s)) = length (close_results s)"
  by (induction ws arbitrary: s) simp_all

lemma resolve_close_keeps:
  "close_results s ! k = Resolved a \<Longrightarrow> close_results (resolve_close w s) ! k = Resolved a"
  by (cases w) (auto simp: resolve_close_def nth_list_update)

lemma fold_resolve_keeps:
  "close_results s ! k = Resolved a \<Longrightarrow> close_results (fold resolve_close ws s) ! k = Resolved a"
  by (induction ws arbitrary: s) (simp_all add: resolve_close_keeps)

lemma fold_resolve_settles:
  assumes "\<forall>w \<in> set ws. snd w = f (fst w)"
    and "k < length (close_results s)" and "close_results s ! k = Pending"
    and "k \<in> fst ` set ws"
  shows "close_results (fold resolve_close ws s) ! k = Resolved (f k)"
  using assms
proof (induction ws arbitrary: s)
  case Nil
  then show ?case by simp
next
  case (Cons w ws)
  show ?case
  proof (cases "fst w = k")
    case True
    with Cons.prems have "close_results (resolve_close w s) ! k = Resolved (f k)"
      by (cases w) (auto simp: resolve_close_def)
    then show ?thesis by (simp add: fold_resolve_keeps)
  next
    case False
    with Cons.prems have "close_results (resolve_close w s) ! k = Pending"
      by (cases w) (auto simp: resolve_close_def)
    moreover from False Cons.prems have "k \<in> fst ` set ws" by auto
    ultimately show ?thesis using Cons.IH [of "resolve_close w s"] Cons.prems by simp
  qed
qed

lemma drained_closing:
  assumes "srv_inv i s" and "srv_state s = Closing"
  shows "srv_inv i ((fold resolve_close (close_listeners s) (s \<lparr> srv_conns := 0 \<rparr>))
                       \<lparr> close_listeners := [], srv_state := Closed \<rparr>)"
proof -
  let ?n = "length (close_results s)"
  let ?ws = "close_listeners s"
  from assms have ws: "?ws = map (\<lambda>k. (k, expected_arg k)) [0..<?n]"
    and pend: "\<forall>k < ?n. close_results s ! k = Pending"
    and ho: "handed_out i s" and ne: "close_results s \<noteq> []"
    by (simp_all add: srv_inv_def)
  have "close_results (fold resolve_close ?ws (s \<lparr> srv_conns := 0 \<rparr>)) ! k = Resolved (expected_arg k)"
    if "k < ?n" for k
  proof (rule fold_resolve_settles)
    show "\<forall>w \<in> set ?ws. snd w = expected_arg (fst w)" using ws by auto
    show "k < length (close_results (s \<lparr> srv_conns := 0 \<rparr>))" using that by simp
    show "close_results (s \<lparr> srv_conns := 0 \<rparr>) ! k = Pending" using that pend by simp
    show "k \<in> fst ` set ?ws" using that ws by (auto simp: image_iff)
  qed
  moreover have "length (close_results (fold resolve_close ?ws (s \<lparr> srv_conns := 0 \<rparr>))) = ?n"
    by simp
  moreover from this ne
  have "close_results (fold resolve_close ?ws (s \<lparr> srv_conns := 0 \<rparr>)) \<noteq> []"
    by (metis length_0_conv)
  ultimately show ?thesis using ho
    by (simp add: srv_inv_def handed_out_def)
qed

lemma inv_conn_ended:
  assumes "srv_inv i s" and "srv_conns s > 0"
  shows "srv_inv i (emit_close_if_drained (s \<lparr> srv_conns := srv_conns s - 1 \<rparr>))"
proof (cases "srv_state s")
  case Closing
  show ?thesis
  proof (cases "srv_conns s = 1")
    case True
    with Closing drained_closing [OF assms(1) Closing] show ?thesis
      by (simp add: emit_close_if_drained_def)
  next
    case False
    with Closing assms show ?thesis
      by (simp add: emit_close_if_drained_def srv_inv_def handed_out_def)
  qed
qed (use assms in \<open>auto simp: emit_close_if_drained_def srv_inv_def handed_out_def pristine_def
      turned_down_def\<close>)

lemma call_close_listening:
  assumes "srv_state s = Listening" "close_wrapped s" "close_results s = []" "close_listeners s = []"
  shows "call_close s =
     (if srv_conns s = 0
      then s \<lparr> srv_state := Closed, close_results := [Resolved None], close_listeners := [],
               original_closes := original_closes s + 1 \<rparr>
      else s \<lparr> srv_state := Closing, close_results := [Pending], close_listeners := [(0, None)],
               original_closes := original_closes s + 1 \<rparr>)"
  using assms
  by (simp add: call_close_def server_close_def original_close_def Let_def
      emit_close_if_drained_def resolve_close_def)

lemma call_close_closing:
  assumes "srv_state s = Closing" "close_wrapped s" "srv_conns s > 0"
  shows "call_close s =
     s \<lparr> close_results := close_results s @ [Pending],
         close_listeners := close_listeners s
            @ [(length (close_results s), Some ''ERR_SERVER_NOT_RUNNING'')],
         original_closes := original_closes s + 1 \<rparr>"
  using assms
  by (simp add: call_close_def server_close_def original_close_def Let_def
      emit_close_if_drained_def)

lemma call_close_closed:
  assumes "srv_state s = Closed" "close_wrapped s" "srv_conns s = 0" "close_listeners s = []"
  shows "call_close s =
     s \<lparr> close_results := close_results s @ [Resolved (Some ''ERR_SERVER_NOT_RUNNING'')],
         close_listeners := [],
         original_closes := original_closes s + 1 \<rparr>"
  using assms
  by (simp add: call_close_def server_close_def original_close_def Let_def
      emit_close_if_drained_def resolve_close_def)


lemma inv_call_close:
  assumes "srv_inv i s" and "started s = Resolved i"
  shows "srv_inv i (call_close s)"
proof (cases "srv_state s")
  case Listening
  with assms have "close_wrapped s" "close_results s = []" "close_listeners s = []"
    by (simp_all add: srv_inv_def handed_out_def)
  from call_close_listening [OF Listening this] assms Listening show ?thesis
    by (simp add: srv_inv_def handed_out_def expected_arg_def)
next
  case Closing
  with assms have w: "close_wrapped s" "srv_conns s > 0"
    by (simp_all add: srv_inv_def handed_out_def)
  from assms Closing have ne: "close_results s \<noteq> []"
    by (simp add: srv_inv_def)
  then have "expected_arg (length (close_results s)) = Some ''ERR_SERVER_NOT_RUNNING''"
    by (simp add: expected_arg_def)
  with call_close_closing [OF Closing w] assms Closing show ?thesis
    by (simp add: srv_inv_def handed_out_def nth_append)
next
  case Closed
  with assms have w: "close_wrapped s" "srv_conns s = 0" "close_listeners s = []"
    by (simp_all add: srv_inv_def handed_out_def)
  from assms Closed have ne: "close_results s \<noteq> []"
    by (simp add: srv_inv_def)
  then have "expected_arg (length (close_results s)) = Some ''ERR_SERVER_NOT_RUNNING''"
    by (simp add: expected_arg_def)
  with call_close_closed [OF Closed w] assms Closed show ?thesis
    by (auto simp: srv_inv_def handed_out_def nth_append less_Suc_eq)
next
  case Starting
  with assms show ?thesis by (simp add: srv_inv_def pristine_def)
next
  case BindFailed
  with assms show ?thesis by (simp add: srv_inv_def pristine_def)
next
  case Refused
  with assms show ?thesis by (simp add: srv_inv_def turned_down_def)
qed

section \<open>Lemmas: the invariant holds in every reachable state\<close>

lemma inv_listening:
  "srv_inv i s \<Longrightarrow> srv_state s = Starting \<Longrightarrow> srv_inv i (fst (on_listening i b s))"
  by (simp add: srv_inv_def on_listening_def pristine_def handed_out_def)

lemma inv_bind_failed:
  "srv_inv i s \<Longrightarrow> srv_state s = Starting \<Longrightarrow> srv_inv i (s \<lparr> srv_state := BindFailed \<rparr>)"
  by (simp add: srv_inv_def pristine_def)

lemma inv_conn_opened:
  "srv_inv i s \<Longrightarrow> srv_state s = Listening
     \<Longrightarrow> srv_inv i (s \<lparr> srv_conns := Suc (srv_conns s) \<rparr>)"
  by (simp add: srv_inv_def handed_out_def)

lemma inv_conn_ended_Suc:
  "srv_inv i s \<Longrightarrow> srv_conns s > 0
     \<Longrightarrow> srv_inv i (emit_close_if_drained (s \<lparr> srv_conns := srv_conns s - Suc 0 \<rparr>))"
  using inv_conn_ended [of i s] by simp

lemma inv_new_server: "srv_inv i (new_server port target)"
  by (simp add: srv_inv_def new_server_def pristine_def)

lemma inv_refused_server: "srv_inv i (refused_server port err)"
  by (simp add: srv_inv_def refused_server_def turned_down_def)

lemma proc_inv_update:
  assumes "proc_inv p" and "i < length (servers p) \<Longrightarrow> srv_inv i (f (servers p ! i))"
  shows "proc_inv (update_server i f p)"
  using assms by (simp add: proc_inv_def update_server_def nth_list_update)

lemma proc_inv_same_servers: "servers q = servers p \<Longrightarrow> proc_inv q = proc_inv p"
  by (simp add: proc_inv_def)

lemma servers_emit [simp]: "servers (emit es p) = servers p"
  by (simp add: emit_def)

lemma servers_exit_process [simp]: "servers (exit_process code p) = servers p"
  by (simp add: exit_process_def)

lemma servers_emit_uncaught [simp]: "servers (emit_uncaught err origin p) = servers p"
  by (simp add: emit_uncaught_def split: option.splits)

lemma servers_serve [simp]: "servers (serve c req p) = servers p"
  by (simp add: serve_def split: prod.splits)

lemma servers_startServer [simp]:
  "servers (startServer c port p) =
     servers p @ [case app_listen c (resolve_port (penv p) port) of
                    Throws err \<Rightarrow> refused_server (resolve_port (penv p) port) err
                  | Listens target \<Rightarrow> new_server (resolve_port (penv p) port) target]"
  by (simp add: startServer_def Let_def emit_def app_use_def initialiseSwagger_def)

lemma srv_Some: "srv p i = Some s \<longleftrightarrow> i < length (servers p) \<and> s = servers p ! i"
  by (auto simp: srv_def)

lemma proc_inv_react:
  assumes "proc_inv p"
  shows "proc_inv (react c ev p)"
proof (cases ev)
  case (Start port)
  with assms show ?thesis
    by (simp add: proc_inv_def nth_append inv_new_server inv_refused_server less_Suc_eq
        split: listen_outcome.splits)
next
  case (ListenOk i b)
  show ?thesis
  proof (cases "srv p i")
    case None
    with ListenOk assms show ?thesis by simp
  next
    case (Some s)
    then have s: "i < length (servers p)" "s = servers p ! i" by (simp_all add: srv_Some)
    with assms have "srv_inv i s" by (simp add: proc_inv_def)
    with ListenOk Some assms s show ?thesis
      by (simp add: proc_inv_same_servers [of "emit _ _"] proc_inv_update inv_listening)
  qed
next
  case (ListenError i err st)
  show ?thesis
  proof (cases "srv p i")
    case None
    with ListenError assms show ?thesis by simp
  next
    case (Some s)
    then have s: "i < length (servers p)" "s = servers p ! i" by (simp_all add: srv_Some)
    with assms have "srv_inv i s" by (simp add: proc_inv_def)
    with ListenError Some assms s show ?thesis
      by (simp add: proc_inv_same_servers [of "emit_uncaught _ _ _"] proc_inv_update
          inv_bind_failed)
  qed
next
  case (CloseCall i)
  show ?thesis
  proof (cases "srv p i")
    case None
    with CloseCall assms show ?thesis by simp
  next
    case (Some s)
    then have s: "i < length (servers p)" "s = servers p ! i" by (simp_all add: srv_Some)
    with assms have "srv_inv i s" by (simp add: proc_inv_def)
    with CloseCall Some assms s show ?thesis
      by (simp add: proc_inv_update inv_call_close)
  qed
next
  case (ConnOpened i)
  show ?thesis
  proof (cases "srv p i")
    case None
    with ConnOpened assms show ?thesis by simp
  next
    case (Some s)
    then have s: "i < length (servers p)" "s = servers p ! i" by (simp_all add: srv_Some)
    with assms have "srv_inv i s" by (simp add: proc_inv_def)
    with ConnOpened Some assms s show ?thesis
      by (simp add: proc_inv_update inv_conn_opened)
  qed
next
  case (ConnEnded i)
  show ?thesis
  proof (cases "srv p i")
    case None
    with ConnEnded assms show ?thesis by simp
  next
    case (Some s)
    then have s: "i < length (servers p)" "s = servers p ! i" by (simp_all add: srv_Some)
    with assms have "srv_inv i s" by (simp add: proc_inv_def)
    with ConnEnded Some assms s show ?thesis
      by (simp add: proc_inv_update inv_conn_ended_Suc)
  qed
next
  case DbOpen
  with assms show ?thesis by (simp add: proc_inv_def)
next
  case (DbConnectFailed err)
  with assms show ?thesis by (simp add: proc_inv_def)
next
  case (FetchDone err)
  with assms show ?thesis by (simp add: proc_inv_def)
next
  case (Request i req)
  with assms show ?thesis by (simp add: proc_inv_def split: option.splits)
next
  case WindowElapsed
  with assms show ?thesis by (simp add: proc_inv_def)
next
  case (Uncaught err origin)
  with assms show ?thesis by (simp add: proc_inv_def)
next
  case (Exit code)
  with assms show ?thesis by (simp add: proc_inv_def)
qed

lemma proc_inv_step: "proc_inv p \<Longrightarrow> proc_inv (step c p ev)"
  by (simp add: step_def proc_inv_react)

lemma proc_inv_run: "proc_inv p \<Longrightarrow> proc_inv (run c p evs)"
  unfolding run_def by (induction evs arbitrary: p) (simp_all add: proc_inv_step)

lemma proc_inv_module_load: "proc_inv (module_load e)"
  by (simp add: proc_inv_def module_load_def)

lemma length_servers_update [simp]: "length (servers (update_server i f p)) = length (servers p)"
  by (simp add: update_server_def)

lemma nth_servers_update:
  "j < length (servers p) \<Longrightarrow>
     servers (update_server i f p) ! j = (if j = i then f (servers p ! j) else servers p ! j)"
  by (simp add: update_server_def nth_list_update)

lemma react_server_cases:
  assumes "i < length (servers p)"
  shows "servers (react c ev p) ! i = servers p ! i
    \<or> (\<exists>b. ev = ListenOk i b \<and> srv_state (servers p ! i) = Starting
           \<and> servers (react c ev p) ! i = fst (on_listening i b (servers p ! i)))
    \<or> (\<exists>err st. ev = ListenError i err st \<and> srv_state (servers p ! i) = Starting
           \<and> servers (react c ev p) ! i = (servers p ! i) \<lparr> srv_state := BindFailed \<rparr>)
    \<or> (ev = CloseCall i \<and> started (servers p ! i) = Resolved i
           \<and> servers (react c ev p) ! i = call_close (servers p ! i))
    \<or> (ev = ConnOpened i \<and> srv_state (servers p ! i) = Listening
           \<and> servers (react c ev p) ! i = (servers p ! i) \<lparr> srv_conns := Suc (srv_conns (servers p ! i)) \<rparr>)
    \<or> (ev = ConnEnded i \<and> srv_conns (servers p ! i) > 0
           \<and> servers (react c ev p) ! i
               = emit_close_if_drained ((servers p ! i) \<lparr> srv_conns := srv_conns (servers p ! i) - Suc 0 \<rparr>))"
proof (cases ev)
  case (Start port)
  with assms show ?thesis by (simp add: nth_append)
next
  case (ListenOk j b)
  with assms show ?thesis
    by (cases "j = i") (simp_all add: srv_def nth_servers_update)
next
  case (ListenError j err st)
  with assms show ?thesis
    by (cases "j = i") (simp_all add: srv_def nth_servers_update)
next
  case (CloseCall j)
  with assms show ?thesis
    by (cases "j = i") (simp_all add: srv_def nth_servers_update)
next
  case (ConnOpened j)
  with assms show ?thesis
    by (cases "j = i") (simp_all add: srv_def nth_servers_update)
next
  case (ConnEnded j)
  with assms show ?thesis
    by (cases "j = i") (simp_all add: srv_def nth_servers_update)
next
  case (Request j req)
  then show ?thesis by (simp split: option.splits)
qed simp_all

lemma length_servers_react: "length (servers p) \<le> length (servers (react c ev p))"
  by (cases ev) (simp_all add: srv_def split: option.splits)

lemma length_servers_step: "length (servers p) \<le> length (servers (step c p ev))"
  by (simp add: step_def length_servers_react)

lemma length_servers_run: "length (servers p) \<le> length (servers (run c p evs))"
  unfolding run_def
proof (induction evs arbitrary: p)
  case Nil
  show ?case by simp
next
  case (Cons ev evs)
  from Cons.IH [of "step c p ev"] length_servers_step [of p c ev] show ?case by simp
qed

lemma started_emit_close [simp]: "started (emit_close_if_drained s) = started s"
  by (simp add: emit_close_if_drained_def)

lemma started_call_close [simp]: "started (call_close s) = started s"
  by (simp add: call_close_def server_close_def original_close_def Let_def split: option.splits)

lemma running_react: "running (react c ev p) \<Longrightarrow> running p"
  by (cases ev) (auto simp: emit_def update_server_def exit_process_def emit_uncaught_def
      serve_def startServer_def initialiseSwagger_def app_use_def srv_def Let_def
      split: option.splits prod.splits if_splits)

lemma run_not_running: "\<not> running p \<Longrightarrow> run c p evs = p"
  unfolding run_def by (induction evs) (simp_all add: step_def)

lemma run_snoc: "run c p (evs @ [ev]) = step c (run c p evs) ev"
  by (simp add: run_def)

lemma run_append: "run c p (evs @ evs') = run c (run c p evs) evs'"
  by (simp add: run_def)

lemma run_Cons: "run c p (ev # evs) = run c (step c p ev) evs"
  by (simp add: run_def)

text \<open>A step changes the promise of a server only by resolving it on a successful bind.\<close>

lemma step_started:
  assumes "proc_inv p" and "i < length (servers p)"
    and "started (servers (step c p ev) ! i) \<noteq> started (servers p ! i)"
  shows "(\<exists>b. ev = ListenOk i b) \<and> running p \<and> srv_state (servers p ! i) = Starting
         \<and> started (servers (step c p ev) ! i) = Resolved i
         \<and> srv_state (servers (step c p ev) ! i) = Listening"
proof -
  from assms(3) have r: "running p" by (auto simp: step_def split: if_splits)
  then have st: "step c p ev = react c ev p" by (simp add: step_def)
  from assms(1,2) have inv: "srv_inv i (servers p ! i)" by (simp add: proc_inv_def)
  from react_server_cases [OF assms(2), of c ev] assms(3) st r inv show ?thesis
    by (auto simp: on_listening_def srv_inv_def pristine_def)
qed

lemma step_bind_failed:
  assumes "proc_inv p" and "i < length (servers p)" and "srv_state (servers p ! i) = BindFailed"
  shows "srv_state (servers (step c p ev) ! i) = BindFailed"
proof (cases "running p")
  case False
  with assms show ?thesis by (simp add: step_def)
next
  case True
  then have st: "step c p ev = react c ev p" by (simp add: step_def)
  from assms(1,2) have inv: "srv_inv i (servers p ! i)" by (simp add: proc_inv_def)
  from react_server_cases [OF assms(2), of c ev] assms(3) st inv show ?thesis
    by (auto simp: srv_inv_def pristine_def emit_close_if_drained_def)
qed

lemma run_bind_failed:
  assumes "proc_inv p" and "i < length (servers p)" and "srv_state (servers p ! i) = BindFailed"
  shows "srv_state (servers (run c p evs) ! i) = BindFailed"
  using assms
proof (induction evs arbitrary: p)
  case Nil
  then show ?case by (simp add: run_def)
next
  case (Cons ev evs)
  have "srv_state (servers (run c (step c p ev) evs) ! i) = BindFailed"
  proof (rule Cons.IH)
    show "proc_inv (step c p ev)" using Cons.prems by (simp add: proc_inv_step)
    show "i < length (servers (step c p ev))"
      using Cons.prems length_servers_step [of p c ev] by simp
    show "srv_state (servers (step c p ev) ! i) = BindFailed"
      using Cons.prems by (rule step_bind_failed)
  qed
  then show ?case by (simp add: run_Cons)
qed

lemma run_started:
  assumes "proc_inv p" and "i < length (servers p)" and "started (servers p ! i) = Pending"
    and "started (servers (run c p evs) ! i) \<noteq> Pending"
  shows "\<exists>b. ListenOk i b \<in> set evs"
  using assms(4)
proof (induction evs rule: rev_induct)
  case Nil
  with assms(3) show ?case by (simp add: run_def)
next
  case (snoc ev evs)
  let ?q = "run c p evs"
  have q: "proc_inv ?q" "i < length (servers ?q)"
    using assms(1,2) length_servers_run [of p c evs] by (simp_all add: proc_inv_run)
  show ?case
  proof (cases "started (servers ?q ! i) = Pending")
    case False
    with snoc.IH show ?thesis by auto
  next
    case True
    with snoc.prems have "started (servers (step c ?q ev) ! i) \<noteq> started (servers ?q ! i)"
      by (simp add: run_snoc)
    from step_started [OF q this] show ?thesis by auto
  qed
qed


lemma startServer_fields [simp]:
  "running (startServer c port p) = running p"
  "penv (startServer c port p) = penv p"
  "limiter (startServer c port p) = limiter p"
  "process_listeners (startServer c port p) = process_listeners p"
  "responses (startServer c port p) = responses p"
  "db (startServer c port p) = Connecting"
  "db_open_listeners (startServer c port p) = Suc (db_open_listeners p)"
  "etag (startServer c port p) = False"
  by (simp_all add: startServer_def Let_def emit_def app_use_def initialiseSwagger_def)

lemma app_startServer:
  "app (startServer c port p) =
     app p @ (if non_production (penv p) then [ApiDocs] else [])
       @ [RateLimiter, Helmet, Cors, Alive, ExpressLogger, Compression, JsonParser,
          UrlencodedParser, RouteMount (api_prefix (penv p)), CatchAll, GenericErrorMiddleware]"
  by (simp add: startServer_def Let_def emit_def app_use_def initialiseSwagger_def)

lemma out_startServer:
  "out (startServer c port p) =
     out p @ [MongooseConnect (databaseURL (penv p)), AppListen (resolve_port (penv p) port)]"
  by (simp add: startServer_def Let_def emit_def app_use_def initialiseSwagger_def)


lemmas eval_defs = run_def step_def srv_def update_server_def module_load_def new_server_def
  on_listening_def emit_def call_close_def server_close_def original_close_def
  emit_close_if_drained_def resolve_close_def Let_def


lemma call_close_counts:
  "close_wrapped s \<Longrightarrow>
     original_closes (call_close s) = original_closes s + 1
     \<and> length (close_results (call_close s)) = length (close_results s) + 1"
  by (simp add: call_close_def server_close_def original_close_def Let_def
      emit_close_if_drained_def)

section \<open>Lemmas: dispatch through the stack\<close>

lemma run_stage_hits: "s \<noteq> RateLimiter \<Longrightarrow> snd (run_stage c s pending h req) = h"
  by (cases s) (simp_all split: option.splits)

lemma dispatch_hits_no_limiter_aux:
  "RateLimiter \<notin> set ss \<Longrightarrow> dispatch c ss pending w h req = (res, vs, h') \<Longrightarrow> h' = h"
proof (induction ss arbitrary: pending w res vs)
  case Nil
  then show ?case by simp
next
  case (Cons s ss)
  then have s: "s \<noteq> RateLimiter" and ss: "RateLimiter \<notin> set ss" by auto
  obtain out h1 where r: "run_stage c s pending h req = (out, h1)"
    by (cases "run_stage c s pending h req")
  with run_stage_hits [OF s, of c pending h req] have h1: "h1 = h" by simp
  show ?case
  proof (cases "enters c s pending req")
    case False
    with Cons.prems(2) Cons.IH [OF ss] show ?thesis by simp
  next
    case True
    show ?thesis
    proof (cases out)
      case (Respond x)
      with True r h1 Cons.prems(2) show ?thesis by simp
    next
      case Next
      with True r h1 Cons.prems(2) Cons.IH [OF ss, of None "w \<or> s = Compression"]
      show ?thesis by (auto split: prod.splits)
    next
      case (Fail err)
      with True r h1 Cons.prems(2) Cons.IH [OF ss, of "Some err" "w \<or> s = Compression"]
      show ?thesis by (auto split: prod.splits)
    qed
  qed
qed

lemma dispatch_hits_no_limiter:
  "RateLimiter \<notin> set ss \<Longrightarrow> snd (snd (dispatch c ss pending w h req)) = h"
  using dispatch_hits_no_limiter_aux [of ss c pending w h req]
  by (cases "dispatch c ss pending w h req") simp

lemma dispatch_pending:
  "dispatch c ss (Some err) w h req =
     (if GenericErrorMiddleware \<in> set ss
      then (finish c w req (error_response c), [GenericErrorMiddleware], h)
      else (finish c w req (finalhandler (Some err)), [], h))"
proof (induction ss)
  case Nil
  show ?case by simp
next
  case (Cons s ss)
  show ?case
  proof (cases "s = GenericErrorMiddleware")
    case True
    then show ?thesis
      by (simp add: enters_def is_error_stage_def genericErrorMiddleware_def)
  next
    case False
    with Cons.IH show ?thesis
      by (simp add: enters_def is_error_stage_def)
  qed
qed

lemma pipeline_eq:
  "app (startServer c0 port (module_load e)) =
     (if non_production e then [ApiDocs] else [])
       @ [RateLimiter, Helmet, Cors, Alive, ExpressLogger, Compression, JsonParser,
          UrlencodedParser, RouteMount (api_prefix e), CatchAll, GenericErrorMiddleware]"
  by (simp add: app_startServer module_load_def)

text \<open>The stack from the rate limiter on, when the limiter rejects.\<close>

lemma limiter_rejects:
  assumes "rl_max \<le> h (req_ip req)"
  shows "dispatch c (RateLimiter # ss) None False h req
         = (too_many, [RateLimiter], h (req_ip req := h (req_ip req) + 1))"
  using assms
  by (simp add: enters_def is_error_stage_def rateLimiter_def Let_def
      finish_def too_many_def)



lemma docs_pass:
  assumes "docs_path (req_path req)" and "api_docs c req = Next"
  shows "dispatch c (ApiDocs # ss) None False h req
         = (case dispatch c ss None False h req of (res, vs, h') \<Rightarrow> (res, ApiDocs # vs, h'))"
  using assms by (simp add: enters_def is_error_stage_def)

lemma docs_skipped:
  assumes "\<not> docs_path (req_path req)"
  shows "dispatch c (ApiDocs # ss) None False h req = dispatch c ss None False h req"
  using assms by (simp add: enters_def is_error_stage_def)

lemma limiter_stage_hits:
  assumes "RateLimiter \<notin> set ss"
  shows "snd (snd (dispatch c (RateLimiter # ss) None w h req))
         = h (req_ip req := h (req_ip req) + 1)"
proof (cases "rl_max \<le> h (req_ip req)")
  case True
  then show ?thesis
    by (simp add: enters_def is_error_stage_def rateLimiter_def Let_def)
next
  case False
  obtain res vs h' where d:
    "dispatch c ss None w (h (req_ip req := h (req_ip req) + 1)) req = (res, vs, h')"
    by (cases "dispatch c ss None w (h (req_ip req := h (req_ip req) + 1)) req")
  from dispatch_hits_no_limiter_aux [OF assms d] have "h' = h (req_ip req := h (req_ip req) + 1)" .
  with False d show ?thesis
    by (simp add: enters_def is_error_stage_def rateLimiter_def Let_def)
qed

lemma pipeline_tail:
  "app (startServer c0 port (module_load e)) =
     (if non_production e then [ApiDocs] else []) @ RateLimiter # tail_stages e"
  by (simp add: pipeline_eq tail_stages_def)

lemma no_limiter_in_tail: "RateLimiter \<notin> set (tail_stages e)"
  by (simp add: tail_stages_def)

lemma docs_fail:
  assumes "docs_path (req_path req)" and "api_docs c req = Fail err"
  shows "dispatch c (ApiDocs # ss) None False h req
         = (case dispatch c ss (Some err) False h req of (res, vs, h') \<Rightarrow> (res, ApiDocs # vs, h'))"
  using assms by (simp add: enters_def is_error_stage_def)

lemma pipeline_hits:
  assumes "st = app (startServer c0 port (module_load e))"
  shows "snd (snd (dispatch c st None False h req))
         = (if reaches_limiter c e req then h (req_ip req := h (req_ip req) + 1) else h)"
proof (cases "docs_run e req")
  case False
  note lim = limiter_stage_hits [OF no_limiter_in_tail, of c e False h req]
  show ?thesis
  proof (cases "non_production e")
    case np: False
    with assms False lim show ?thesis
      by (simp add: pipeline_tail reaches_limiter_def del: dispatch.simps)
  next
    case np: True
    with False have "\<not> docs_path (req_path req)" by (simp add: docs_run_def)
    from docs_skipped [OF this] np assms False lim show ?thesis
      by (simp add: pipeline_tail reaches_limiter_def del: dispatch.simps)
  qed
next
  case True
  then have np: "non_production e" and dp: "docs_path (req_path req)"
    by (simp_all add: docs_run_def)
  then have st: "st = ApiDocs # RateLimiter # tail_stages e"
    using assms by (simp add: pipeline_tail)
  show ?thesis
  proof (cases "api_docs c req")
    case (Respond x)
    with True dp st show ?thesis
      by (simp add: reaches_limiter_def enters_def is_error_stage_def)
  next
    case Next
    from limiter_stage_hits [OF no_limiter_in_tail, of c e False h req]
    have "snd (snd (dispatch c (RateLimiter # tail_stages e) None False h req))
          = h (req_ip req := h (req_ip req) + 1)" .
    with True st Next dp show ?thesis
      by (auto simp: reaches_limiter_def docs_pass split: prod.splits simp del: dispatch.simps)
  next
    case (Fail err)
    with True st dp show ?thesis
      by (simp add: reaches_limiter_def docs_fail dispatch_pending del: dispatch.simps)
  qed
qed

lemma app_serve [simp]: "app (serve c req p) = app p"
  by (simp add: serve_def split: prod.splits)

lemma limiter_serve: "limiter (serve c req p) = snd (snd (dispatch c (app p) None False (limiter p) req))"
  by (simp add: serve_def split: prod.splits)

lemma responses_serve:
  "responses (serve c req p) =
     responses p @ [(fst (dispatch c (app p) None False (limiter p) req),
                     fst (snd (dispatch c (app p) None False (limiter p) req)))]"
  by (simp add: serve_def split: prod.splits)

lemma app_serve_all [simp]: "app (serve_all c reqs p) = app p"
  unfolding serve_all_def by (induction reqs arbitrary: p) simp_all

lemma limiter_serve_all:
  assumes "app p = app (startServer c0 port (module_load e))"
  shows "limiter (serve_all c reqs p) k
         = limiter p k + length (filter (\<lambda>r. req_ip r = k \<and> reaches_limiter c e r) reqs)"
  using assms
proof (induction reqs arbitrary: p)
  case Nil
  show ?case by (simp add: serve_all_def)
next
  case (Cons r reqs)
  have step: "serve_all c (r # reqs) p = serve_all c reqs (serve c r p)"
    by (simp add: serve_all_def)
  have "app (serve c r p) = app (startServer c0 port (module_load e))"
    using Cons.prems by simp
  from Cons.IH [OF this]
  have "limiter (serve_all c reqs (serve c r p)) k
        = limiter (serve c r p) k
          + length (filter (\<lambda>r. req_ip r = k \<and> reaches_limiter c e r) reqs)" .
  moreover have "limiter (serve c r p) k
        = limiter p k + (if req_ip r = k \<and> reaches_limiter c e r then 1 else 0)"
    using pipeline_hits [OF Cons.prems, where c = c and h = "limiter p" and req = r]
    by (simp add: limiter_serve)
  ultimately show ?case by (simp add: step)
qed



lemmas request_defs = serve_def enters_def is_error_stage_def rateLimiter_def
  rl_max_def finish_def alive_handler_def catch_all_def expressLogger_def parser_outcome_def
  compression_filter_def truthy_def genericErrorMiddleware_def accepting_def
  non_production_def api_prefix_def

lemma dispatch_error_stage_last:
  assumes "GenericErrorMiddleware \<notin> set ss"
    and "dispatch c (ss @ [GenericErrorMiddleware]) pending w h req = (res, vs, h')"
    and "GenericErrorMiddleware \<in> set vs"
  shows "\<exists>w' vs'. vs = vs' @ [GenericErrorMiddleware] \<and> GenericErrorMiddleware \<notin> set vs'
                  \<and> res = finish c w' req (error_response c)"
  using assms
proof (induction ss arbitrary: pending w h res vs h')
  case Nil
  then show ?case
    by (cases pending)
       (auto simp: enters_def is_error_stage_def genericErrorMiddleware_def)
next
  case (Cons s ss)
  then have s: "s \<noteq> GenericErrorMiddleware" and ss: "GenericErrorMiddleware \<notin> set ss" by auto
  show ?case
  proof (cases "enters c s pending req")
    case False
    with Cons.prems(2) have "dispatch c (ss @ [GenericErrorMiddleware]) pending w h req = (res, vs, h')"
      by simp
    from Cons.IH [OF ss this Cons.prems(3)] show ?thesis .
  next
    case True
    obtain out h1 where r: "run_stage c s pending h req = (out, h1)"
      by (cases "run_stage c s pending h req")
    show ?thesis
    proof (cases out)
      case (Respond x)
      with True r Cons.prems(2,3) s show ?thesis by auto
    next
      case Next
      obtain res1 vs1 h2 where d:
        "dispatch c (ss @ [GenericErrorMiddleware]) None (w \<or> s = Compression) h1 req = (res1, vs1, h2)"
        by (cases "dispatch c (ss @ [GenericErrorMiddleware]) None (w \<or> s = Compression) h1 req")
      with True r Next Cons.prems(2) have e: "res = res1" "vs = s # vs1" by auto
      with Cons.prems(3) s have "GenericErrorMiddleware \<in> set vs1" by auto
      from Cons.IH [OF ss d this] obtain w' vs' where
        "vs1 = vs' @ [GenericErrorMiddleware]" "GenericErrorMiddleware \<notin> set vs'"
        "res1 = finish c w' req (error_response c)" by blast
      with e s have "vs = (s # vs') @ [GenericErrorMiddleware]
                     \<and> GenericErrorMiddleware \<notin> set (s # vs')
                     \<and> res = finish c w' req (error_response c)" by simp
      then show ?thesis by blast
    next
      case (Fail err)
      obtain res1 vs1 h2 where d:
        "dispatch c (ss @ [GenericErrorMiddleware]) (Some err) (w \<or> s = Compression) h1 req = (res1, vs1, h2)"
        by (cases "dispatch c (ss @ [GenericErrorMiddleware]) (Some err) (w \<or> s = Compression) h1 req")
      with True r Fail Cons.prems(2) have e: "res = res1" "vs = s # vs1" by auto
      with Cons.prems(3) s have "GenericErrorMiddleware \<in> set vs1" by auto
      from Cons.IH [OF ss d this] obtain w' vs' where
        "vs1 = vs' @ [GenericErrorMiddleware]" "GenericErrorMiddleware \<notin> set vs'"
        "res1 = finish c w' req (error_response c)" by blast
      with e s have "vs = (s # vs') @ [GenericErrorMiddleware]
                     \<and> GenericErrorMiddleware \<notin> set (s # vs')
                     \<and> res = finish c w' req (error_response c)" by simp
      then show ?thesis by blast
    qed
  qed
qed

lemma pipeline_head:
  "app (startServer c0 port (module_load e)) = head_stages e @ [GenericErrorMiddleware]"
  by (simp add: pipeline_eq head_stages_def)

lemma no_error_stage_in_head: "GenericErrorMiddleware \<notin> set (head_stages e)"
  by (simp add: head_stages_def)

lemma finish_opt_out:
  "truthy (req_headers req ''x-no-compression'') \<Longrightarrow> res_compressed (finish c w req res) = False"
  by (simp add: finish_def compression_filter_def)

lemma dispatch_opt_out:
  assumes "truthy (req_headers req ''x-no-compression'')"
  shows "res_compressed (fst (dispatch c ss pending w h req)) = False"
proof (induction ss arbitrary: pending w h)
  case Nil
  show ?case by (simp add: finish_opt_out [OF assms])
next
  case (Cons s ss)
  obtain out h1 where r: "run_stage c s pending h req = (out, h1)"
    by (cases "run_stage c s pending h req")
  show ?case
  proof (cases "enters c s pending req")
    case False
    with Cons.IH show ?thesis by simp
  next
    case True
    show ?thesis
    proof (cases out)
      case (Respond x)
      with True r show ?thesis by (simp add: finish_opt_out [OF assms])
    next
      case Next
      with True r Cons.IH [of None "w \<or> s = Compression" h1] show ?thesis
        by (auto split: prod.splits)
    next
      case (Fail err)
      with True r Cons.IH [of "Some err" "w \<or> s = Compression" h1] show ?thesis
        by (auto split: prod.splits)
    qed
  qed
qed

lemma process_listeners_react: "process_listeners (react c ev p) = process_listeners p"
  by (cases ev)
     (simp_all add: emit_def update_server_def exit_process_def emit_uncaught_def serve_def
       startServer_def initialiseSwagger_def app_use_def srv_def Let_def
       split: option.splits prod.splits)

lemma process_listeners_run: "process_listeners (run c p evs) = process_listeners p"
  unfolding run_def
  by (induction evs arbitrary: p) (simp_all add: step_def process_listeners_react)


section \<open>Lemmas: a storage failure touches the storage state only\<close>






section \<open>Lemmas: evaluating the samples\<close>

lemmas listen_defs = app_listen_def check_port_def bad_port_def decimal_value_def is_digit_def
  digit_val_def resolve_port_def truthy_def address_fits_def refused_server_def

lemmas path_defs = mount_matches_def plain_def under_mount_def route_matches_def strip_slash_def
  lower_def docs_path_def docs_routes_def Let_def

section \<open>Lemmas: a refused port\<close>

lemma penv_react: "penv (react c ev p) = penv p"
  by (cases ev)
     (simp_all add: emit_def update_server_def exit_process_def emit_uncaught_def serve_def
       srv_def split: option.splits prod.splits)

lemma penv_run: "penv (run c p evs) = penv p"
  unfolding run_def
  by (induction evs arbitrary: p) (simp_all add: step_def penv_react)

lemma step_refused:
  assumes "proc_inv p" and "i < length (servers p)" and "srv_state (servers p ! i) = Refused"
  shows "servers (step c p ev) ! i = servers p ! i"
proof (cases "running p")
  case False
  then show ?thesis by (simp add: step_def)
next
  case True
  then have st: "step c p ev = react c ev p" by (simp add: step_def)
  from assms(1,2) have inv: "srv_inv i (servers p ! i)" by (simp add: proc_inv_def)
  from react_server_cases [OF assms(2), of c ev] assms(3) st inv show ?thesis
    by (auto simp: srv_inv_def turned_down_def)
qed

lemma run_refused:
  assumes "proc_inv p" and "i < length (servers p)" and "srv_state (servers p ! i) = Refused"
  shows "servers (run c p evs) ! i = servers p ! i"
  using assms
proof (induction evs arbitrary: p)
  case Nil
  then show ?case by (simp add: run_def)
next
  case (Cons ev evs)
  have same: "servers (step c p ev) ! i = servers p ! i"
    using Cons.prems by (rule step_refused)
  have "servers (run c (step c p ev) evs) ! i = servers (step c p ev) ! i"
  proof (rule Cons.IH)
    show "proc_inv (step c p ev)" using Cons.prems by (simp add: proc_inv_step)
    show "i < length (servers (step c p ev))"
      using Cons.prems length_servers_step [of p c ev] by simp
    show "srv_state (servers (step c p ev) ! i) = Refused"
      using Cons.prems same by simp
  qed
  with same show ?case by (simp add: run_Cons)
qed

lemma refused_emit_close [simp]:
  "srv_state (emit_close_if_drained s) = Refused \<longleftrightarrow> srv_state s = Refused"
  by (auto simp: emit_close_if_drained_def)

lemma refused_call_close [simp]:
  "srv_state (call_close s) = Refused \<longleftrightarrow> srv_state s = Refused"
  by (auto simp: call_close_def server_close_def original_close_def Let_def split: option.splits)

lemma step_not_refused:
  assumes "i < length (servers p)" and "srv_state (servers p ! i) \<noteq> Refused"
  shows "srv_state (servers (step c p ev) ! i) \<noteq> Refused"
proof (cases "running p")
  case False
  with assms show ?thesis by (simp add: step_def)
next
  case True
  then have st: "step c p ev = react c ev p" by (simp add: step_def)
  from react_server_cases [OF assms(1), of c ev] assms(2) st show ?thesis
    by (auto simp: on_listening_def)
qed

lemma run_not_refused:
  assumes "i < length (servers p)" and "srv_state (servers p ! i) \<noteq> Refused"
  shows "srv_state (servers (run c p evs) ! i) \<noteq> Refused"
  using assms
proof (induction evs arbitrary: p)
  case Nil
  then show ?case by (simp add: run_def)
next
  case (Cons ev evs)
  have "srv_state (servers (run c (step c p ev) evs) ! i) \<noteq> Refused"
  proof (rule Cons.IH)
    show "i < length (servers (step c p ev))"
      using Cons.prems length_servers_step [of p c ev] by simp
    show "srv_state (servers (step c p ev) ! i) \<noteq> Refused"
      using Cons.prems by (rule step_not_refused)
  qed
  then show ?case by (simp add: run_Cons)
qed

section \<open>Lemmas: the promises of \<open>close\<close>\<close>

lemma conns_emit_close [simp]: "srv_conns (emit_close_if_drained s) = srv_conns s"
  by (simp add: emit_close_if_drained_def)

lemma length_results_emit_close [simp]:
  "length (close_results (emit_close_if_drained s)) = length (close_results s)"
  by (simp add: emit_close_if_drained_def)

lemma conns_call_close [simp]: "srv_conns (call_close s) = srv_conns s"
  by (simp add: call_close_def server_close_def original_close_def Let_def split: option.splits)

lemma close_results_settled:
  assumes "srv_inv i s" and "k < length (close_results s)"
  shows "close_results s ! k
         = (if srv_conns s = 0 then Resolved (expected_arg k) else Pending)"
  using assms
  by (cases "srv_state s") (auto simp: srv_inv_def pristine_def turned_down_def)

lemma close_state_settled:
  assumes "srv_inv i s" and "close_results s \<noteq> []"
  shows "srv_state s = (if srv_conns s = 0 then Closed else Closing)"
  using assms
  by (cases "srv_state s") (auto simp: srv_inv_def pristine_def turned_down_def)

section \<open>Lemmas: outbound requests\<close>






section \<open>The startup promise\<close>

text \<open>
  C1 (as the code has it). For every call of \<open>startServer\<close> (after any history \<open>evs0\<close>,
  creating server \<open>i\<close>). When \<open>app.listen\<close> accepts the port, the returned promise starts
  pending, and if the bind fails before any success it stays pending for good: never
  resolved, never rejected. When \<open>app.listen\<close> throws, as it does for a number outside
  0..65535, the promise is rejected with the thrown error at once and remains so: there
  is no handle. Whatever events follow, the promise is pending, or resolved with server
  \<open>i\<close> after a successful bind of \<open>i\<close> among them, or rejected with the error that
  \<open>app.listen\<close> threw; the event that settles a pending promise is that successful bind
  and leaves the server in state \<open>Listening\<close>; and a successful bind of the starting
  server does resolve it.
\<close>

theorem startServer_promise_outcomes:
  assumes p0: "p0 = run c (module_load e) evs0"
    and i: "i = length (servers p0)"
    and p1: "p1 = startServer c port p0"
  shows "(\<forall>target. app_listen c (resolve_port e port) = Listens target
           \<longrightarrow> started (servers p1 ! i) = Pending \<and> srv_state (servers p1 ! i) = Starting
               \<and> (\<forall>evs1 err st evs2. (\<forall>a. ListenOk i a \<notin> set evs1)
                     \<longrightarrow> started (servers (run c p1 (evs1 @ ListenError i err st # evs2)) ! i)
                           = Pending
                         \<and> srv_state (servers (run c p1 (evs1 @ ListenError i err st # evs2)) ! i)
                           \<noteq> Listening))
    \<and> (\<forall>err. app_listen c (resolve_port e port) = Throws err
           \<longrightarrow> (\<forall>evs. started (servers (run c p1 evs) ! i) = Rejected err
                      \<and> srv_state (servers (run c p1 evs) ! i) = Refused))
    \<and> (\<forall>n. resolve_port e port = Num n \<and> (n < 0 \<or> 65535 < n)
           \<longrightarrow> started (servers p1 ! i) = Rejected ''ERR_SOCKET_BAD_PORT'')
    \<and> (\<forall>evs. started (servers (run c p1 evs) ! i) = Pending
           \<or> (started (servers (run c p1 evs) ! i) = Resolved i
               \<and> (\<exists>a. ListenOk i a \<in> set evs))
           \<or> (\<exists>err. started (servers (run c p1 evs) ! i) = Rejected err
                      \<and> app_listen c (resolve_port e port) = Throws err))
    \<and> (\<forall>evs ev. started (servers (run c p1 evs) ! i) = Pending
           \<and> started (servers (run c p1 (evs @ [ev])) ! i) \<noteq> Pending
         \<longrightarrow> (\<exists>a. ev = ListenOk i a)
             \<and> started (servers (run c p1 (evs @ [ev])) ! i) = Resolved i
             \<and> srv_state (servers (run c p1 (evs @ [ev])) ! i) = Listening)
    \<and> (\<forall>evs a. running (run c p1 evs) \<and> srv_state (servers (run c p1 evs) ! i) = Starting
           \<and> address_fits (srv_target (servers (run c p1 evs) ! i)) a
         \<longrightarrow> started (servers (run c p1 (evs @ [ListenOk i a])) ! i) = Resolved i
             \<and> srv_state (servers (run c p1 (evs @ [ListenOk i a])) ! i) = Listening)"
proof -
  let ?port = "resolve_port e port"
  have env: "penv p0 = e" using p0 by (simp add: penv_run module_load_def)
  have inv0: "proc_inv p0" using p0 by (simp add: proc_inv_run proc_inv_module_load)
  have "react c (Start port) p0 = p1" using p1 by simp
  with proc_inv_react [OF inv0, of c "Start port"] have inv1: "proc_inv p1" by simp
  have len1: "i < length (servers p1)" using i p1 by simp
  have new: "servers p1 ! i = (case app_listen c ?port of
                                 Throws err \<Rightarrow> refused_server ?port err
                               | Listens target \<Rightarrow> new_server ?port target)"
    using i p1 env by (simp add: nth_append split: listen_outcome.splits)
  have invq: "proc_inv (run c p1 evs)" for evs using inv1 by (rule proc_inv_run)
  have lenq: "i < length (servers (run c p1 evs))" for evs
    using len1 length_servers_run [of p1 c evs] by simp
  have sinv: "srv_inv i (servers (run c p1 evs) ! i)" for evs
    using invq [of evs] lenq [of evs] by (simp add: proc_inv_def)
  have R: "started (servers (run c p1 evs) ! i) = Rejected err
           \<and> srv_state (servers (run c p1 evs) ! i) = Refused"
    if "app_listen c ?port = Throws err" for err evs
  proof -
    from that new have r: "servers p1 ! i = refused_server ?port err" by simp
    then have "srv_state (servers p1 ! i) = Refused" by (simp add: refused_server_def)
    from run_refused [OF inv1 len1 this, of c evs] r show ?thesis
      by (simp add: refused_server_def)
  qed
  have N: "started (servers p1 ! i) = Rejected ''ERR_SOCKET_BAD_PORT''"
    if "?port = Num n \<and> (n < 0 \<or> 65535 < n)" for n
  proof -
    from that have "app_listen c ?port = Throws ''ERR_SOCKET_BAD_PORT''"
      by (auto simp: app_listen_def check_port_def bad_port_def)
    from R [OF this, of "[]"] show ?thesis by (simp add: run_def)
  qed
  have vals: "started (servers (run c p1 evs) ! i) = Pending
              \<or> started (servers (run c p1 evs) ! i) = Resolved i
              \<or> srv_state (servers (run c p1 evs) ! i) = Refused" for evs
    using sinv [of evs]
    by (cases "srv_state (servers (run c p1 evs) ! i)")
       (simp_all add: srv_inv_def pristine_def handed_out_def)
  have B: "started (servers (run c p1 evs) ! i) = Pending
           \<or> (started (servers (run c p1 evs) ! i) = Resolved i \<and> (\<exists>a. ListenOk i a \<in> set evs))
           \<or> (\<exists>err. started (servers (run c p1 evs) ! i) = Rejected err
                      \<and> app_listen c ?port = Throws err)"
    for evs
  proof (cases "app_listen c ?port")
    case (Throws err)
    from R [OF this, of evs] Throws show ?thesis by simp
  next
    case (Listens target)
    with new have pend: "started (servers p1 ! i) = Pending" by (simp add: new_server_def)
    from Listens new have "srv_state (servers p1 ! i) = Starting" by (simp add: new_server_def)
    from Listens new have "srv_state (servers p1 ! i) \<noteq> Refused" by (simp add: new_server_def)
    from run_not_refused [OF len1 this, of c evs]
    have nr: "srv_state (servers (run c p1 evs) ! i) \<noteq> Refused" .
    with vals [of evs] run_started [OF inv1 len1 pend, of c evs] show ?thesis by blast
  qed
  have A: "started (servers p1 ! i) = Pending \<and> srv_state (servers p1 ! i) = Starting"
    if "app_listen c ?port = Listens target" for target
    using that new by (simp add: new_server_def)
  have C: "(\<exists>a. ev = ListenOk i a)
             \<and> started (servers (run c p1 (evs @ [ev])) ! i) = Resolved i
             \<and> srv_state (servers (run c p1 (evs @ [ev])) ! i) = Listening"
    if "started (servers (run c p1 evs) ! i) = Pending
        \<and> started (servers (run c p1 (evs @ [ev])) ! i) \<noteq> Pending" for evs ev
  proof -
    from that have "started (servers (step c (run c p1 evs) ev) ! i)
                    \<noteq> started (servers (run c p1 evs) ! i)"
      by (simp add: run_snoc)
    from step_started [OF invq lenq this] show ?thesis by (simp add: run_snoc)
  qed
  have D: "started (servers (run c p1 (evs @ [ListenOk i a])) ! i) = Resolved i
           \<and> srv_state (servers (run c p1 (evs @ [ListenOk i a])) ! i) = Listening"
    if "running (run c p1 evs) \<and> srv_state (servers (run c p1 evs) ! i) = Starting
        \<and> address_fits (srv_target (servers (run c p1 evs) ! i)) a" for evs a
  proof -
    from that sinv [of evs] have "started (servers (run c p1 evs) ! i) = Pending"
      by (simp add: srv_inv_def pristine_def)
    with that lenq [of evs] show ?thesis
      by (simp add: run_snoc step_def srv_def nth_servers_update on_listening_def)
  qed
  have E: "started (servers (run c p1 (evs1 @ ListenError i err st # evs2)) ! i) = Pending
           \<and> srv_state (servers (run c p1 (evs1 @ ListenError i err st # evs2)) ! i) \<noteq> Listening"
    if lis: "app_listen c ?port = Listens target" and no: "\<forall>a. ListenOk i a \<notin> set evs1"
    for target evs1 err st evs2
  proof -
    let ?q = "run c p1 evs1"
    let ?r = "step c ?q (ListenError i err st)"
    have run: "run c p1 (evs1 @ ListenError i err st # evs2) = run c ?r evs2"
      by (simp add: run_append run_Cons)
    from B [of evs1] no lis have pend: "started (servers ?q ! i) = Pending" by auto
    with sinv [of evs1] have st: "srv_state (servers ?q ! i) = Starting
                                  \<or> srv_state (servers ?q ! i) = BindFailed"
      by (cases "srv_state (servers ?q ! i)")
         (simp_all add: srv_inv_def handed_out_def turned_down_def)
    have invr: "proc_inv ?r" using invq by (rule proc_inv_step)
    have lenr: "i < length (servers ?r)" using lenq [of evs1] length_servers_step [of ?q c]
      by (meson less_le_trans)
    show ?thesis
    proof (cases "running ?q")
      case False
      then have "?r = ?q" by (simp add: step_def)
      with False have "run c ?r evs2 = ?q" by (simp add: run_not_running)
      with run pend st show ?thesis by auto
    next
      case True
      with st lenq [of evs1] have "srv_state (servers ?r ! i) = BindFailed"
        by (auto simp: step_def srv_def nth_servers_update)
      from run_bind_failed [OF invr lenr this, of c evs2]
      have bf: "srv_state (servers (run c ?r evs2) ! i) = BindFailed" .
      with sinv [of "evs1 @ ListenError i err st # evs2"] run show ?thesis
        by (simp add: srv_inv_def pristine_def)
    qed
  qed
  from A E have AE: "\<forall>target. app_listen c ?port = Listens target
           \<longrightarrow> started (servers p1 ! i) = Pending \<and> srv_state (servers p1 ! i) = Starting
               \<and> (\<forall>evs1 err st evs2. (\<forall>a. ListenOk i a \<notin> set evs1)
                     \<longrightarrow> started (servers (run c p1 (evs1 @ ListenError i err st # evs2)) ! i)
                           = Pending
                         \<and> srv_state (servers (run c p1 (evs1 @ ListenError i err st # evs2)) ! i)
                           \<noteq> Listening)"
    by blast
  from AE R N B C D show ?thesis by blast
qed

theorem startServer_promise_outcomes_witness:
  "app_listen sample_collab (resolve_port bare_env Undefined) = Listens (TcpPort 5000)
   \<and> started (servers (run sample_collab (startServer sample_collab Undefined (module_load bare_env))
                          ([] @ ListenError 0 ''EADDRINUSE'' ''at Server.listen''
                                # [ListenOk 0 (TcpAddress 5000)])) ! 0) = Pending
   \<and> running (run sample_collab (startServer sample_collab Undefined (module_load bare_env)) [])
   \<and> srv_state (servers (run sample_collab (startServer sample_collab Undefined (module_load bare_env)) []) ! 0)
       = Starting
   \<and> address_fits (srv_target (servers (run sample_collab
         (startServer sample_collab Undefined (module_load bare_env)) []) ! 0)) (TcpAddress 5000)
   \<and> started (servers (run sample_collab (startServer sample_collab Undefined (module_load bare_env))
                          ([] @ [ListenOk 0 (TcpAddress 5000)])) ! 0) = Resolved 0
   \<and> srv_state (servers (run sample_collab (startServer sample_collab Undefined (module_load bare_env))
                          ([] @ [ListenOk 0 (TcpAddress 5000)])) ! 0) = Listening
   \<and> app_listen sample_collab (resolve_port bare_env (Num 65536)) = Throws ''ERR_SOCKET_BAD_PORT''
   \<and> started (servers (run sample_collab (startServer sample_collab (Num 65536) (module_load bare_env))
                          [ListenOk 0 (TcpAddress 65536)]) ! 0) = Rejected ''ERR_SOCKET_BAD_PORT''"
proof -
  have p0: "module_load bare_env = run sample_collab (module_load bare_env) []"
    by (simp add: run_def)
  have len: "0 = length (servers (module_load bare_env))"
    by (simp add: module_load_def)
  note t = startServer_promise_outcomes [OF p0 len refl, where port = Undefined]
  note u = startServer_promise_outcomes [OF p0 len refl, where port = "Num 65536"]
  have lis: "app_listen sample_collab (resolve_port bare_env Undefined) = Listens (TcpPort 5000)"
    by (simp add: listen_defs bare_env_def)
  have thr: "app_listen sample_collab (resolve_port bare_env (Num 65536))
             = Throws ''ERR_SOCKET_BAD_PORT''"
    by (simp add: listen_defs)
  have h: "running (run sample_collab (startServer sample_collab Undefined (module_load bare_env)) [])
    \<and> srv_state (servers (run sample_collab (startServer sample_collab Undefined (module_load bare_env)) []) ! 0)
        = Starting
    \<and> address_fits (srv_target (servers (run sample_collab
         (startServer sample_collab Undefined (module_load bare_env)) []) ! 0)) (TcpAddress 5000)"
    by (simp add: run_def module_load_def new_server_def listen_defs bare_env_def)
  have n: "ListenOk 0 a \<notin> set []" for a by simp
  note E = t [THEN conjunct1, rule_format, OF lis, THEN conjunct2, THEN conjunct2, rule_format,
      of "[]" "''EADDRINUSE''" "''at Server.listen''" "[ListenOk 0 (TcpAddress 5000)]",
      OF n, THEN conjunct1]
  note D = t [THEN conjunct2, THEN conjunct2, THEN conjunct2, THEN conjunct2, THEN conjunct2,
      rule_format, of "[]" "TcpAddress 5000", OF h]
  note R = u [THEN conjunct2, THEN conjunct1, rule_format, OF thr,
      of "[ListenOk 0 (TcpAddress 65536)]", THEN conjunct1]
  from lis thr h E D R show ?thesis by simp
qed

text \<open>
  C1 as stated fails: for the port -1, for \<open>PORT=70000\<close>, and for the port 65536
  \<open>app.listen\<close> throws inside the promise executor, no socket is bound, and the promise is
  rejected.
\<close>

theorem refused_port_counterexample:
  "started (servers (startServer sample_collab (Num (- 1)) (module_load bare_env)) ! 0)
     = Rejected ''ERR_SOCKET_BAD_PORT''
   \<and> started (servers (startServer sample_collab Undefined (module_load oversized_port_env)) ! 0)
     = Rejected ''ERR_SOCKET_BAD_PORT''
   \<and> started (servers (run sample_collab (module_load bare_env)
                          [Start (Num 65536), ListenOk 0 (TcpAddress 65536)]) ! 0)
     = Rejected ''ERR_SOCKET_BAD_PORT''"
  by (simp add: eval_defs listen_defs bare_env_def oversized_port_env_def)

section \<open>Closing a server\<close>

text \<open>
  C2 (as the code has it). In every reachable state and for every server: each call of
  the wrapped \<open>close\<close> has called the underlying \<open>close\<close> once. The promises returned by
  \<open>close\<close> are all pending while a connection is left, and all completed once none is
  left: the first call's with no value, every later call's with the not-running error that
  the underlying \<open>close\<close> passes to its callback; after a first call the server is
  closing while a connection is left, and closed afterwards. A call on a started handle
  adds one promise and one underlying call, also when it is not the first; on a server
  without connections the call itself completes the new promise; and the end of the last
  connection completes every promise.
\<close>

theorem close_calls_original_close_each_time:
  assumes p: "p = run c (module_load e) evs" and i: "i < length (servers p)"
    and s: "s = servers p ! i"
  shows "original_closes s = length (close_results s)
    \<and> (\<forall>k < length (close_results s).
          close_results s ! k
          = (if srv_conns s = 0
             then Resolved (if k = 0 then None else Some ''ERR_SERVER_NOT_RUNNING'')
             else Pending))
    \<and> (close_results s \<noteq> [] \<longrightarrow> srv_state s = (if srv_conns s = 0 then Closed else Closing))
    \<and> (running p \<and> started s = Resolved i
         \<longrightarrow> original_closes (servers (step c p (CloseCall i)) ! i) = original_closes s + 1
             \<and> length (close_results (servers (step c p (CloseCall i)) ! i))
                 = length (close_results s) + 1)
    \<and> (running p \<and> started s = Resolved i \<and> srv_conns s = 0
         \<longrightarrow> last (close_results (servers (step c p (CloseCall i)) ! i))
               = Resolved (if close_results s = [] then None
                           else Some ''ERR_SERVER_NOT_RUNNING''))
    \<and> (running p \<and> srv_conns s = 1
         \<longrightarrow> (\<forall>k < length (close_results s).
                close_results (servers (step c p (ConnEnded i)) ! i) ! k
                = Resolved (if k = 0 then None else Some ''ERR_SERVER_NOT_RUNNING'')))"
proof -
  have pinv: "proc_inv p" using p by (simp add: proc_inv_run proc_inv_module_load)
  with i s have inv: "srv_inv i s" by (simp add: proc_inv_def)
  have next_inv: "srv_inv i (servers (step c p ev) ! i)" for ev
    using proc_inv_step [OF pinv, of c ev] i length_servers_step [of p c ev]
    by (simp add: proc_inv_def)
  have A: "original_closes s = length (close_results s)"
    using inv
    by (cases "srv_state s")
       (simp_all add: srv_inv_def pristine_def handed_out_def turned_down_def)
  have B: "close_results s ! k
          = (if srv_conns s = 0
             then Resolved (if k = 0 then None else Some ''ERR_SERVER_NOT_RUNNING'')
             else Pending)"
    if "k < length (close_results s)" for k
    using close_results_settled [OF inv that] by (simp add: expected_arg_def)
  have B': "srv_state s = (if srv_conns s = 0 then Closed else Closing)"
    if "close_results s \<noteq> []"
    using close_state_settled [OF inv that] .
  have wrapped: "close_wrapped s" if "started s = Resolved i"
    using that inv
    by (cases "srv_state s")
       (simp_all add: srv_inv_def pristine_def handed_out_def turned_down_def)
  have C: "original_closes (servers (step c p (CloseCall i)) ! i) = original_closes s + 1
             \<and> length (close_results (servers (step c p (CloseCall i)) ! i))
                 = length (close_results s) + 1"
    if "running p \<and> started s = Resolved i"
  proof -
    from that have "close_wrapped s" by (simp add: wrapped)
    from call_close_counts [OF this] that i s show ?thesis
      by (simp add: step_def srv_def nth_servers_update)
  qed
  have D: "last (close_results (servers (step c p (CloseCall i)) ! i))
               = Resolved (if close_results s = [] then None
                           else Some ''ERR_SERVER_NOT_RUNNING'')"
    if h: "running p \<and> started s = Resolved i \<and> srv_conns s = 0"
  proof -
    let ?s' = "servers (step c p (CloseCall i)) ! i"
    from h i s have s': "?s' = call_close s"
      by (simp add: step_def srv_def nth_servers_update)
    from C h have len: "length (close_results ?s') = length (close_results s) + 1" by simp
    from s' h have conns: "srv_conns ?s' = 0" by simp
    from len have k: "length (close_results s) < length (close_results ?s')" by simp
    from len have "close_results ?s' \<noteq> []" by auto
    then have "last (close_results ?s') = close_results ?s' ! length (close_results s)"
      using len by (simp add: last_conv_nth)
    with close_results_settled [OF next_inv k] conns show ?thesis
      by (simp add: expected_arg_def)
  qed
  have E: "close_results (servers (step c p (ConnEnded i)) ! i) ! k
                = Resolved (if k = 0 then None else Some ''ERR_SERVER_NOT_RUNNING'')"
    if h: "running p \<and> srv_conns s = 1" and k: "k < length (close_results s)" for k
  proof -
    let ?s' = "servers (step c p (ConnEnded i)) ! i"
    from h i s have s': "?s' = emit_close_if_drained (s \<lparr> srv_conns := 0 \<rparr>)"
      by (simp add: step_def srv_def nth_servers_update)
    then have conns: "srv_conns ?s' = 0" and len: "length (close_results ?s') = length (close_results s)"
      by simp_all
    from k len have "k < length (close_results ?s')" by simp
    from close_results_settled [OF next_inv this] conns show ?thesis
      by (simp add: expected_arg_def)
  qed
  from A B B' C D E show ?thesis by blast
qed

theorem close_calls_original_close_each_time_witness:
  "0 < length (servers (run sample_collab (module_load bare_env)
         [Start Undefined, ListenOk 0 (TcpAddress 5000), ConnOpened 0, CloseCall 0, CloseCall 0]))
   \<and> running (run sample_collab (module_load bare_env)
         [Start Undefined, ListenOk 0 (TcpAddress 5000), ConnOpened 0, CloseCall 0, CloseCall 0])
   \<and> started (servers (run sample_collab (module_load bare_env)
         [Start Undefined, ListenOk 0 (TcpAddress 5000), ConnOpened 0, CloseCall 0, CloseCall 0]) ! 0)
       = Resolved 0
   \<and> srv_conns (servers (run sample_collab (module_load bare_env)
         [Start Undefined, ListenOk 0 (TcpAddress 5000), ConnOpened 0, CloseCall 0, CloseCall 0]) ! 0)
       = 1
   \<and> close_results (servers (run sample_collab (module_load bare_env)
         [Start Undefined, ListenOk 0 (TcpAddress 5000), ConnOpened 0, CloseCall 0, CloseCall 0]) ! 0)
       = [Pending, Pending]
   \<and> original_closes (servers (run sample_collab (module_load bare_env)
         [Start Undefined, ListenOk 0 (TcpAddress 5000), ConnOpened 0, CloseCall 0, CloseCall 0]) ! 0)
       = 2
   \<and> close_results (servers (step sample_collab (run sample_collab (module_load bare_env)
         [Start Undefined, ListenOk 0 (TcpAddress 5000), ConnOpened 0, CloseCall 0, CloseCall 0])
         (ConnEnded 0)) ! 0) ! 0 = Resolved None
   \<and> close_results (servers (step sample_collab (run sample_collab (module_load bare_env)
         [Start Undefined, ListenOk 0 (TcpAddress 5000), ConnOpened 0, CloseCall 0, CloseCall 0])
         (ConnEnded 0)) ! 0) ! 1 = Resolved (Some ''ERR_SERVER_NOT_RUNNING'')
   \<and> original_closes (servers (step sample_collab (run sample_collab (module_load bare_env)
         [Start Undefined, ListenOk 0 (TcpAddress 5000), ConnOpened 0, CloseCall 0, CloseCall 0])
         (CloseCall 0)) ! 0) = 3"
proof -
  let ?p = "run sample_collab (module_load bare_env)
         [Start Undefined, ListenOk 0 (TcpAddress 5000), ConnOpened 0, CloseCall 0, CloseCall 0]"
  have i: "0 < length (servers ?p)" by (simp add: eval_defs listen_defs bare_env_def)
  have h: "running ?p \<and> started (servers ?p ! 0) = Resolved 0"
    by (simp add: eval_defs listen_defs bare_env_def)
  have g: "running ?p \<and> srv_conns (servers ?p ! 0) = 1"
    by (simp add: eval_defs listen_defs bare_env_def)
  have r: "close_results (servers ?p ! 0) = [Pending, Pending]"
    by (simp add: eval_defs listen_defs bare_env_def)
  note t = close_calls_original_close_each_time [OF refl i refl]
  note A = t [THEN conjunct1]
  note C = t [THEN conjunct2, THEN conjunct2, THEN conjunct2, THEN conjunct1, rule_format, OF h,
      THEN conjunct1]
  note E = t [THEN conjunct2, THEN conjunct2, THEN conjunct2, THEN conjunct2, THEN conjunct2,
      rule_format, OF g]
  from r have k0: "0 < length (close_results (servers ?p ! 0))"
    and k1: "1 < length (close_results (servers ?p ! 0))" by simp_all
  from A r have closes: "original_closes (servers ?p ! 0) = 2" by simp
  from i h g r closes C E [OF k0] E [OF k1] show ?thesis by simp
qed

text \<open>
  C2 as stated fails: on a listening server without connections, the second call of
  \<open>close\<close> calls the underlying \<open>close\<close> again, and the two promises complete with different
  values.
\<close>

theorem close_twice_counterexample:
  "original_closes (servers (run sample_collab (module_load bare_env)
       [Start Undefined, ListenOk 0 (TcpAddress 5000), CloseCall 0]) ! 0) = 1
   \<and> original_closes (servers (run sample_collab (module_load bare_env)
       [Start Undefined, ListenOk 0 (TcpAddress 5000), CloseCall 0, CloseCall 0]) ! 0) = 2
   \<and> close_results (servers (run sample_collab (module_load bare_env)
       [Start Undefined, ListenOk 0 (TcpAddress 5000), CloseCall 0, CloseCall 0]) ! 0)
       = [Resolved None, Resolved (Some ''ERR_SERVER_NOT_RUNNING'')]"
  by (simp add: eval_defs listen_defs bare_env_def)

section \<open>A failed storage connection\<close>



section \<open>Cache warm-up\<close>



text \<open>
  C5 (what the code does at a failing input). With \<open>CACHE_ON_STARTUP=true\<close> and neither
  \<open>PORT\<close> nor \<open>API_PREFIX\<close> set, \<open>startServer()\<close> listens on 5000 and mounts the routes
  under \<open>/api/v1/\<close>, but the two warm-up requests go to
  \<open>http://localhost:undefinedundefinedwifis/patch/...\<close>: the template reads the raw
  environment variables, not the resolved port and prefix that the specification names.
\<close>

theorem warmup_url_ignores_defaults:
  "filter is_fetch (out (run sample_collab (module_load warmup_env) [Start Undefined, DbOpen]))
     = [Fetch ''http://localhost:undefinedundefinedwifis/patch/reloadFeatureCache'' PATCH,
        Fetch ''http://localhost:undefinedundefinedwifis/patch/reloadHeatmapData'' PATCH]
   \<and> srv_port (servers (run sample_collab (module_load warmup_env) [Start Undefined, DbOpen]) ! 0)
       = Num 5000
   \<and> RouteMount ''/api/v1/''
       \<in> set (app (run sample_collab (module_load warmup_env) [Start Undefined, DbOpen]))
   \<and> warmup_url_spec warmup_env Undefined ''reloadFeatureCache''
       = ''http://localhost:5000/api/v1/wifis/patch/reloadFeatureCache''
   \<and> warmup_url_spec warmup_env Undefined ''reloadHeatmapData''
       = ''http://localhost:5000/api/v1/wifis/patch/reloadHeatmapData''"
proof -
  have d: "decimal 5000 = ''5000''"
    by (simp add: decimal.simps [of 5000] decimal.simps [of 500] decimal.simps [of 50]
        decimal.simps [of 5] digit_of_def)
  show ?thesis
    by (simp add: run_def step_def out_startServer app_startServer module_load_def
        warmup_env_def on_db_open_def warmup_url_def interp_def emit_def new_server_def
        resolve_port_def truthy_def api_prefix_def non_production_def databaseURL_def
        warmup_url_spec_def js_to_string_def string_of_int_def d listen_defs)
qed

section \<open>The pipeline\<close>

text \<open>
  C6. In the stack \<open>startServer\<close> assembles, the error middleware is the last stage and
  occurs once, after the rate limiter, the probe, the route mount and the catch-all. From any point of the stack at which an error is pending, dispatch enters
  the error middleware alone and answers with the uniform error response; and whenever a
  request's dispatch enters the error middleware, it does so once, as the last stage
  entered, and the response is the uniform error response.
\<close>

theorem error_reporter_is_terminal:
  assumes st: "st = app (startServer c0 port (module_load e))"
  shows "last st = GenericErrorMiddleware
    \<and> count_list st GenericErrorMiddleware = 1
    \<and> (\<forall>pre post. st = pre @ post @ [GenericErrorMiddleware]
          \<longrightarrow> dispatch c (post @ [GenericErrorMiddleware]) (Some err) wrapped h req
              = (finish c wrapped req (error_response c), [GenericErrorMiddleware], h))
    \<and> (\<forall>res vs h'. dispatch c st None False h req = (res, vs, h')
                      \<and> GenericErrorMiddleware \<in> set vs
          \<longrightarrow> last vs = GenericErrorMiddleware
              \<and> count_list vs GenericErrorMiddleware = 1
              \<and> (\<exists>w. res = finish c w req (error_response c)))
    \<and> (\<exists>earlier. st = earlier @ [GenericErrorMiddleware]
          \<and> RouteMount (api_prefix e) \<in> set earlier \<and> CatchAll \<in> set earlier
          \<and> Alive \<in> set earlier \<and> RateLimiter \<in> set earlier)"
proof -
  have A: "last st = GenericErrorMiddleware" using st by (simp add: pipeline_head)
  have E: "\<exists>earlier. st = earlier @ [GenericErrorMiddleware]
          \<and> RouteMount (api_prefix e) \<in> set earlier \<and> CatchAll \<in> set earlier
          \<and> Alive \<in> set earlier \<and> RateLimiter \<in> set earlier"
    using st by (intro exI [of _ "head_stages e"]) (simp add: pipeline_head head_stages_def)
  have B: "count_list st GenericErrorMiddleware = 1"
    using st no_error_stage_in_head [of e] by (simp add: pipeline_head count_list_0_iff)
  have C: "dispatch c (post @ [GenericErrorMiddleware]) (Some err) wrapped h req
              = (finish c wrapped req (error_response c), [GenericErrorMiddleware], h)"
    for post by (simp add: dispatch_pending)
  have D: "last vs = GenericErrorMiddleware \<and> count_list vs GenericErrorMiddleware = 1
           \<and> (\<exists>w. res = finish c w req (error_response c))"
    if "dispatch c st None False h req = (res, vs, h') \<and> GenericErrorMiddleware \<in> set vs"
    for res vs h'
  proof -
    from that st have d: "dispatch c (head_stages e @ [GenericErrorMiddleware]) None False h req
                          = (res, vs, h')" and m: "GenericErrorMiddleware \<in> set vs"
      by (simp_all add: pipeline_head)
    from dispatch_error_stage_last [OF no_error_stage_in_head d m]
    obtain w' vs' where "vs = vs' @ [GenericErrorMiddleware]" "GenericErrorMiddleware \<notin> set vs'"
        "res = finish c w' req (error_response c)" by blast
    then show ?thesis by (auto simp: count_list_0_iff)
  qed
  from A B C D E show ?thesis by blast
qed

theorem error_reporter_is_terminal_witness:
  "app (startServer sample_collab Undefined (module_load production_env))
     = [RateLimiter, Helmet, Cors, Alive, ExpressLogger, Compression, JsonParser,
        UrlencodedParser, RouteMount ''/api/v1/''] @ [CatchAll] @ [GenericErrorMiddleware]
   \<and> dispatch sample_collab ([CatchAll] @ [GenericErrorMiddleware]) (Some ''boom'') True
        (limiter (module_load production_env)) failing_request
       = (finish sample_collab True failing_request (error_response sample_collab),
          [GenericErrorMiddleware], limiter (module_load production_env))
   \<and> dispatch sample_collab (app (startServer sample_collab Undefined (module_load production_env))) None False
        (\<lambda>k. 0) failing_request
       = (\<lparr> res_status = 500, res_body = ''Internal error'', res_compressed = True \<rparr>,
          [RateLimiter, Helmet, Cors, ExpressLogger, Compression, JsonParser, UrlencodedParser,
           RouteMount ''/api/v1/'', GenericErrorMiddleware],
          (\<lambda>k. 0) (''203.0.113.7'' := 1))
   \<and> last [RateLimiter, Helmet, Cors, ExpressLogger, Compression, JsonParser, UrlencodedParser,
           RouteMount ''/api/v1/'', GenericErrorMiddleware] = GenericErrorMiddleware"
proof -
  let ?st = "app (startServer sample_collab Undefined (module_load production_env))"
  let ?vs = "[RateLimiter, Helmet, Cors, ExpressLogger, Compression, JsonParser, UrlencodedParser,
           RouteMount ''/api/v1/'', GenericErrorMiddleware]"
  have split: "?st = [RateLimiter, Helmet, Cors, Alive, ExpressLogger, Compression, JsonParser,
        UrlencodedParser, RouteMount ''/api/v1/''] @ [CatchAll] @ [GenericErrorMiddleware]"
    by (simp add: pipeline_eq non_production_def production_env_def api_prefix_def truthy_def)
  have d: "dispatch sample_collab ?st None False (\<lambda>k. 0) failing_request
       = (\<lparr> res_status = 500, res_body = ''Internal error'', res_compressed = True \<rparr>,
          ?vs, (\<lambda>k. 0) (''203.0.113.7'' := 1))"
    by (simp add: pipeline_eq request_defs path_defs production_env_def failing_request_def
        sample_collab_def)
  have m: "GenericErrorMiddleware \<in> set ?vs" by simp
  note t = error_reporter_is_terminal [where port = Undefined and e = production_env and c = sample_collab
      and c0 = sample_collab
      and err = "''boom''" and wrapped = True and h = "limiter (module_load production_env)"
      and req = failing_request, OF refl]
  note t3 = t [THEN conjunct2, THEN conjunct2, THEN conjunct1, rule_format, OF split]
  show ?thesis using split d t3 by simp
qed

text \<open>
  C7 (as the code has it). For every request whose \<open>x-no-compression\<close> header has a
  non-empty value, the filter answers no after the opt-out check alone, and no response
  to it is compressed, whatever the stack, the pending error and the library's predicate.
  For every request the filter evaluates the opt-out check first, and the library's
  predicate only when the header is absent or empty.
\<close>

theorem opt_out_header_prevents_compression:
  assumes "truthy (req_headers req ''x-no-compression'')"
  shows "compression_filter c req res = (False, [OptOutHeader])
    \<and> res_compressed (fst (dispatch c st pending wrapped h req)) = False
    \<and> res_compressed (fst (last (responses (serve c req p)))) = False
    \<and> snd (compression_filter c req' res')
        = (if truthy (req_headers req' ''x-no-compression'') then [OptOutHeader]
           else [OptOutHeader, LibraryFilter])"
  using assms dispatch_opt_out [OF assms]
  by (simp add: compression_filter_def responses_serve)

theorem opt_out_header_prevents_compression_witness:
  "truthy (req_headers (wifis_request ''1'') ''x-no-compression'')
   \<and> responses (serve sample_collab (wifis_request ''1'')
        (startServer sample_collab Undefined (module_load production_env)))
       = [(\<lparr> res_status = 200, res_body = ''[]'', res_compressed = False \<rparr>,
           [RateLimiter, Helmet, Cors, ExpressLogger, Compression, JsonParser,
            UrlencodedParser, RouteMount ''/api/v1/''])]
   \<and> res_compressed (fst (last (responses (serve sample_collab (wifis_request ''1'')
        (startServer sample_collab Undefined (module_load production_env)))))) = False"
proof -
  have h: "truthy (req_headers (wifis_request ''1'') ''x-no-compression'')"
    by (simp add: truthy_def wifis_request_def)
  have r: "responses (serve sample_collab (wifis_request ''1'')
        (startServer sample_collab Undefined (module_load production_env)))
       = [(\<lparr> res_status = 200, res_body = ''[]'', res_compressed = False \<rparr>,
           [RateLimiter, Helmet, Cors, ExpressLogger, Compression, JsonParser,
            UrlencodedParser, RouteMount ''/api/v1/''])]"
    by (simp add: request_defs path_defs app_startServer module_load_def production_env_def
        wifis_request_def sample_collab_def)
  from opt_out_header_prevents_compression [OF h, where c = sample_collab
      and p = "startServer sample_collab Undefined (module_load production_env)"] h r
  show ?thesis by simp
qed

text \<open>
  C7 as stated fails: a request that carries \<open>x-no-compression\<close> with an empty value (a
  falsy string) is not opted out, and its response is compressed.
\<close>

theorem empty_opt_out_header_counterexample:
  "req_headers (wifis_request '''') ''x-no-compression'' = Some ''''
   \<and> compression_filter sample_collab (wifis_request '''') too_many
       = (True, [OptOutHeader, LibraryFilter])
   \<and> responses (run sample_collab (module_load production_env)
        [Start Undefined, ListenOk 0 (TcpAddress 5000), Request 0 (wifis_request '''')])
       = [(\<lparr> res_status = 200, res_body = ''[]'', res_compressed = True \<rparr>,
           [RateLimiter, Helmet, Cors, ExpressLogger, Compression, JsonParser,
            UrlencodedParser, RouteMount ''/api/v1/''])]"
  by (simp add: eval_defs listen_defs request_defs path_defs app_startServer production_env_def
      wifis_request_def sample_collab_def on_listening_def emit_def)





text \<open>
  C10 (as the code has it). The rate limiter is registered before every stage of
  \<open>startServer\<close> but the documentation routes, which precede it outside production. For
  any client, once five of its requests have reached the limiter within a window, its next
  request that reaches the limiter is answered with the rejection by the limiter itself,
  whatever its method and path.
\<close>

theorem rate_limiter_rejects_sixth_request:
  assumes stack: "app p = app (startServer c0 port (module_load e))"
    and five: "5 \<le> length (filter (\<lambda>r. req_ip r = req_ip req \<and> reaches_limiter c e r) reqs)"
    and reaches: "reaches_limiter c e req"
  shows "last (responses (serve c req (serve_all c reqs p)))
           = (too_many, (if docs_run e req then [ApiDocs] else []) @ [RateLimiter])
    \<and> app (startServer c0 port (module_load e))
        = (if non_production e then [ApiDocs] else [])
          @ [RateLimiter, Helmet, Cors, Alive, ExpressLogger, Compression, JsonParser,
             UrlencodedParser, RouteMount (api_prefix e), CatchAll, GenericErrorMiddleware]"
proof -
  let ?q = "serve_all c reqs p"
  have "limiter ?q (req_ip req)
        = limiter p (req_ip req)
          + length (filter (\<lambda>r. req_ip r = req_ip req \<and> reaches_limiter c e r) reqs)"
    using stack by (rule limiter_serve_all)
  with five have full: "rl_max \<le> limiter ?q (req_ip req)" by (simp add: rl_max_def)
  note r = limiter_rejects [where h = "limiter ?q" and req = req and c = c, OF full]
  have app: "app ?q = app (startServer c0 port (module_load e))" using stack by simp
  have "last (responses (serve c req ?q))
           = (too_many, (if docs_run e req then [ApiDocs] else []) @ [RateLimiter])"
  proof (cases "non_production e")
    case False
    with app r show ?thesis
      by (simp add: responses_serve pipeline_eq docs_run_def del: dispatch.simps)
  next
    case True
    show ?thesis
    proof (cases "docs_path (req_path req)")
      case yes: True
      with True reaches have "api_docs c req = Next"
        by (simp add: reaches_limiter_def docs_run_def)
      from docs_pass [OF yes this] True yes app r show ?thesis
        by (simp add: responses_serve pipeline_eq docs_run_def del: dispatch.simps)
    next
      case no: False
      from docs_skipped [OF no] True no app r show ?thesis
        by (simp add: responses_serve pipeline_eq docs_run_def del: dispatch.simps)
    qed
  qed
  then show ?thesis by (simp add: pipeline_eq)
qed

theorem rate_limiter_rejects_sixth_request_witness:
  "app (startServer sample_collab Undefined (module_load production_env))
     = app (startServer sample_collab Undefined (module_load production_env))
   \<and> 5 \<le> length (filter (\<lambda>r. req_ip r = req_ip alive_request
                               \<and> reaches_limiter sample_collab production_env r)
                    [alive_request, alive_request, alive_request, alive_request, alive_request])
   \<and> reaches_limiter sample_collab production_env alive_request
   \<and> last (responses (serve sample_collab alive_request
        (serve_all sample_collab
           [alive_request, alive_request, alive_request, alive_request, alive_request]
           (startServer sample_collab Undefined (module_load production_env)))))
       = (too_many, [RateLimiter])"
proof -
  have np: "\<not> non_production production_env"
    by (simp add: non_production_def production_env_def)
  then have reach: "reaches_limiter sample_collab production_env r" for r
    by (simp add: reaches_limiter_def docs_run_def)
  have nd: "\<not> docs_run production_env alive_request" using np by (simp add: docs_run_def)
  have five: "5 \<le> length (filter (\<lambda>r. req_ip r = req_ip alive_request
                               \<and> reaches_limiter sample_collab production_env r)
                    [alive_request, alive_request, alive_request, alive_request, alive_request])"
    by (simp add: reach)
  from rate_limiter_rejects_sixth_request [OF refl five reach] nd five reach show ?thesis by simp
qed

text \<open>
  C10 as stated fails: outside production the documentation routes are registered before
  the rate limiter, and the sixth request for them within a window is answered by them.
\<close>

theorem docs_not_rate_limited_counterexample:
  "take 2 (app (startServer sample_collab Undefined (module_load bare_env))) = [ApiDocs, RateLimiter]
   \<and> req_ip docs_request = ''203.0.113.7''
   \<and> responses (run sample_collab (module_load bare_env)
        [Start Undefined, ListenOk 0 (TcpAddress 5000),
         Request 0 docs_request, Request 0 docs_request, Request 0 docs_request,
         Request 0 docs_request, Request 0 docs_request, Request 0 docs_request]) ! 5
       = (\<lparr> res_status = 200, res_body = ''{}'', res_compressed = False \<rparr>, [ApiDocs])"
  by (simp add: eval_defs listen_defs request_defs app_startServer bare_env_def docs_request_def
      sample_collab_def on_listening_def emit_def path_defs)

section \<open>The fault reporter\<close>

text \<open>
  C9 (what the code does at a failing input). Module load registers one listener for
  \<open>uncaughtException\<close>, and for a thrown error it logs origin, error and trace, then the
  warning, and the process keeps running. For a thrown \<open>null\<close> or \<open>undefined\<close> the
  listener itself throws while it reads \<open>err.stack\<close>: nothing is logged, the process ends
  with exit status 7, and the server answers no further request.
\<close>

theorem fault_reporter_exits_on_null:
  "listeners_of ''uncaughtException''
       (run sample_collab (module_load bare_env) [Start Undefined, ListenOk 0 (TcpAddress 5000)])
     = [UncaughtHandler]
   \<and> running (run sample_collab (module_load bare_env)
                [Start Undefined, ListenOk 0 (TcpAddress 5000)])
   \<and> uncaught_handler ThrownNull ''uncaughtException'' = None
   \<and> uncaught_handler ThrownUndefined ''uncaughtException'' = None
   \<and> running (run sample_collab (module_load bare_env)
                [Start Undefined, ListenOk 0 (TcpAddress 5000),
                 Uncaught ThrownNull ''uncaughtException'']) = False
   \<and> exit_status (run sample_collab (module_load bare_env)
                [Start Undefined, ListenOk 0 (TcpAddress 5000),
                 Uncaught ThrownNull ''uncaughtException'']) = Some 7
   \<and> out (run sample_collab (module_load bare_env)
                [Start Undefined, ListenOk 0 (TcpAddress 5000),
                 Uncaught ThrownNull ''uncaughtException''])
       = [Log Info ''===== STARTING SERVER ====='',
          MongooseConnect ''mongodb://mongo:27017/prj'', AppListen (Num 5000),
          Log Info ''Listening on port 5000'']
   \<and> responses (run sample_collab (module_load bare_env)
                [Start Undefined, ListenOk 0 (TcpAddress 5000),
                 Uncaught ThrownNull ''uncaughtException'', Request 0 alive_request]) = []
   \<and> exit_status (run sample_collab (module_load bare_env)
                [Start Undefined, ListenOk 0 (TcpAddress 5000),
                 Uncaught ThrownUndefined ''uncaughtException'']) = Some 7
   \<and> running (run sample_collab (module_load bare_env)
                [Start Undefined, ListenOk 0 (TcpAddress 5000),
                 Uncaught (ThrownValue (Some ''Error: boom'') (Some ''at handler (routes.js:1)''))
                          ''uncaughtException''])
   \<and> out (run sample_collab (module_load bare_env)
                [Start Undefined, ListenOk 0 (TcpAddress 5000),
                 Uncaught (ThrownValue (Some ''Error: boom'') (Some ''at handler (routes.js:1)''))
                          ''uncaughtException''])
       = [Log Info ''===== STARTING SERVER ====='',
          MongooseConnect ''mongodb://mongo:27017/prj'', AppListen (Num 5000),
          Log Info ''Listening on port 5000'',
          Log Error ''Uncaught Exception: origin:uncaughtException, error: Error: boom, trace: at handler (routes.js:1)'',
          Log Warn ''Server may be unstable after an uncaught exception. Please restart server'']"
proof -
  have d: "decimal 5000 = ''5000''"
    by (simp add: decimal.simps [of 5000] decimal.simps [of 500] decimal.simps [of 50]
        decimal.simps [of 5] digit_of_def)
  show ?thesis
    by (simp add: eval_defs listen_defs bare_env_def on_listening_def emit_def
        emit_uncaught_def uncaught_handler_def listeners_of_def interp_def
        out_startServer databaseURL_def d accepting_def)
qed

end
